theory Spec2Isabelle
  imports
    Main
    "HOL-Library.AList"
    "HOL-Library.Char_ord"
    "HOL-Library.List_Lexorder"
begin

section \<open>The roadmap facet: data model\<close>

text \<open>
  The facet \<^verbatim>\<open>GraphvizRoadmap\<close> of \<^verbatim>\<open>iolanta_roadmap/facets/roadmap.py\<close> turns the rows of
  a query into the nodes and edges of a Graphviz digraph. A row is a Python mapping from
  variable names to RDF terms; an unbound variable is a missing key. Terms are modelled by
  their string form, ordered as Python orders strings (lexicographically by code).
\<close>

type_synonym row = "string \<rightharpoonup> string"

datatype error = KeyError | TypeError

record Task =
  id' :: string
  title :: string
  is_bug :: bool
  is_focused :: bool
  blocks :: "string list"
  is_branch_of :: "string list"

record TaskWithBranches = Task +
  branches :: "Task list"

definition background_color :: "'a Task_scheme \<Rightarrow> string" where
  "background_color self =
     (if is_focused self then ''#730FC3''
      else if is_bug self then ''#AC6363'' else ''#788897'')"

definition pen_color :: "'a Task_scheme \<Rightarrow> string" where
  "pen_color self =
     (if is_focused self then ''#730FC3''
      else if is_bug self then ''#AC6363'' else ''#4B5D6C'')"

section \<open>Helpers of the module\<close>

text \<open>\<^verbatim>\<open>str(node).replace(':', '_')\<close>: both strings are one character long.\<close>

definition as_graph_id :: "string \<Rightarrow> string" where
  "as_graph_id node = map (\<lambda>c. if c = CHR '':'' then CHR ''_'' else c) node"

text \<open>\<^verbatim>\<open>raw_label.replace('|', '\\|')\<close>: a pipe becomes a backslash and a pipe.\<close>

definition format_record_label :: "string \<Rightarrow> string" where
  "format_record_label raw_label =
     concat (map (\<lambda>c. if c = CHR ''|'' then [CHR 0x5C, CHR ''|''] else [c]) raw_label)"

text \<open>\<^verbatim>\<open>sep.join(parts)\<close>.\<close>

fun join :: "string \<Rightarrow> string list \<Rightarrow> string" where
  "join sep [] = []"
| "join sep [p] = p"
| "join sep (p # q # ps) = p @ sep @ join sep (q # ps)"

text \<open>
  \<^verbatim>\<open>html.escape\<close> with its default \<^verbatim>\<open>quote=True\<close>: the ampersand is replaced first, so the
  five replacements act character by character.
\<close>

definition html_escape :: "string \<Rightarrow> string" where
  "html_escape s =
     concat (map (\<lambda>c.
       if c = CHR ''&'' then ''&amp;''
       else if c = CHR ''<'' then ''&lt;''
       else if c = CHR ''>'' then ''&gt;''
       else if c = CHR 0x22 then ''&quot;''
       else if c = CHR 0x27 then ''&#x27;''
       else [c]) s)"

text \<open>
  \<^verbatim>\<open>wrap_html\<close>. The parameter \<open>wrap\<close> stands for \<^verbatim>\<open>textwrap.wrap(_, width=20)\<close> of the
  standard library, whose line breaking is not part of this module.
\<close>

definition wrap_html :: "(string \<Rightarrow> string list) \<Rightarrow> string \<Rightarrow> string \<Rightarrow> string" where
  "wrap_html wrap source align =
     (let splitter = ''<br align='' @ [CHR 0x22] @ align @ [CHR 0x22] @ ''/>'';
          wrapped = join splitter (wrap (html_escape (filter (\<lambda>c. c \<noteq> CHR 0x22) source)))
      in wrapped @ splitter)"

text \<open>
  \<^verbatim>\<open>itertools.groupby\<close>: maximal runs of consecutive elements with equal keys, each with the
  key of its first element.
\<close>

function groupby :: "('a \<Rightarrow> 'k) \<Rightarrow> 'a list \<Rightarrow> ('k \<times> 'a list) list" where
  "groupby key [] = []"
| "groupby key (x # xs) =
     (key x, x # takeWhile (\<lambda>y. key y = key x) xs)
       # groupby key (dropWhile (\<lambda>y. key y = key x) xs)"
  by pat_completeness auto
termination
  by (relation "measure (\<lambda>(key, xs). length xs)")
     (auto simp: length_dropWhile_le less_Suc_eq_le)

text \<open>
  A Python \<^verbatim>\<open>dict\<close> built from a sequence of pairs: a new key goes to the end, a repeated key
  keeps its place and takes the later value. Iteration follows the list.
\<close>

definition py_dict :: "('k \<times> 'v) list \<Rightarrow> ('k \<times> 'v) list" where
  "py_dict kvs = fold (\<lambda>(k, v) d. AList.update k v d) kvs []"

text \<open>Running a sequence of fallible steps: the first error ends the run.\<close>

fun collect :: "('e + 'a) list \<Rightarrow> 'e + 'a list" where
  "collect [] = Inr []"
| "collect (Inl e # rs) = Inl e"
| "collect (Inr a # rs) = (case collect rs of Inl e \<Rightarrow> Inl e | Inr as \<Rightarrow> Inr (a # as))"

section \<open>Record normalizer\<close>

text \<open>
  \<^verbatim>\<open>sorted(rows, key=_['task'])\<close> reads the key of every row: a row without \<^verbatim>\<open>task\<close> raises
  \<^verbatim>\<open>KeyError\<close>. The rows are paired with their keys once; sorting is stable.
\<close>

definition keyed :: "string \<Rightarrow> row list \<Rightarrow> error + (string \<times> row) list" where
  "keyed field rows =
     (case those (map (\<lambda>row. map_option (\<lambda>k. (k, row)) (row field)) rows) of
        None \<Rightarrow> Inl KeyError
      | Some krs \<Rightarrow> Inr krs)"

text \<open>
  The generator \<^verbatim>\<open>as_graph_id(x) for row in rows if (x := row.get(field))\<close>: an unbound
  variable and an empty term are both false.
\<close>

definition referenced :: "string \<Rightarrow> row list \<Rightarrow> string list" where
  "referenced field rows =
     List.map_filter (\<lambda>row.
       case row field of
         None \<Rightarrow> None
       | Some x \<Rightarrow> if x = [] then None else Some (as_graph_id x)) rows"

text \<open>
  The body of the loop of \<^verbatim>\<open>_task_by_id_stream\<close> for one group. The parameter \<open>enum\<close>
  stands for \<^verbatim>\<open>list(set(_))\<close>: the order in which Python iterates a set of strings is not
  fixed by the program.
\<close>

definition task_of_group ::
  "(string list \<Rightarrow> string list) \<Rightarrow> string \<times> row list \<Rightarrow> error + (string \<times> Task)" where
  "task_of_group enum g =
     (case g of (task_id, rows) \<Rightarrow>
        (case rows of
           [] \<Rightarrow> Inl TypeError
         | first_row # _ \<Rightarrow>
             (case first_row ''title'' of
                None \<Rightarrow> Inl KeyError
              | Some title' \<Rightarrow>
                  let graph_id = as_graph_id task_id in
                  Inr (graph_id,
                       \<lparr>id' = graph_id,
                        title = title',
                        is_bug = (first_row ''is_bug'' \<noteq> None),
                        is_focused = (first_row ''is_focused'' \<noteq> None),
                        blocks = enum (referenced ''blocks'' rows),
                        is_branch_of = enum (referenced ''is_branch_of'' rows)\<rparr>))))"

definition task_by_id_stream ::
  "(string list \<Rightarrow> string list) \<Rightarrow> row list \<Rightarrow> error + (string \<times> Task) list" where
  "task_by_id_stream enum rows =
     (case keyed ''task'' rows of
        Inl e \<Rightarrow> Inl e
      | Inr krs \<Rightarrow>
          collect (map (\<lambda>(task_id, rows_per_task). task_of_group enum (task_id, map snd rows_per_task))
                       (groupby fst (sort_key fst krs))))"

definition task_by_id ::
  "(string list \<Rightarrow> string list) \<Rightarrow> row list \<Rightarrow> error + (string \<times> Task) list" where
  "task_by_id enum rows =
     (case task_by_id_stream enum rows of
        Inl e \<Rightarrow> Inl e
      | Inr stream \<Rightarrow> Inr (py_dict stream))"

section \<open>Branch resolver\<close>

definition find_branches_by_task ::
  "row list \<Rightarrow> error + (string \<times> (string \<times> string) list) list" where
  "find_branches_by_task rows =
     (case keyed ''task'' rows of
        Inl e \<Rightarrow> Inl e
      | Inr krs \<Rightarrow>
          (case collect
             (map (\<lambda>(root_task, group).
                     case collect
                       (map (\<lambda>(k, branch).
                               case (branch ''branch'', branch ''title'') of
                                 (Some b, Some t) \<Rightarrow> Inr (as_graph_id b, format_record_label t)
                               | _ \<Rightarrow> Inl KeyError) group) of
                       Inl e \<Rightarrow> Inl e
                     | Inr labels \<Rightarrow> Inr (root_task, labels))
                  (groupby fst krs)) of
             Inl e \<Rightarrow> Inl e
           | Inr kvs \<Rightarrow> Inr (py_dict kvs)))"

definition branch_rows :: "(string \<times> Task) list \<Rightarrow> (string \<times> Task) list" where
  "branch_rows tbi =
     concat (map (\<lambda>child_task. map (\<lambda>parent. (parent, child_task)) (is_branch_of child_task))
                 (map snd tbi))"

text \<open>\<^verbatim>\<open>TaskWithBranches(**asdict(parent), branches=children)\<close>.\<close>

definition with_branches :: "Task \<Rightarrow> Task list \<Rightarrow> TaskWithBranches" where
  "with_branches parent children =
     \<lparr>id' = id' parent,
      title = title parent,
      is_bug = is_bug parent,
      is_focused = is_focused parent,
      blocks = blocks parent,
      is_branch_of = is_branch_of parent,
      branches = children\<rparr>"

text \<open>
  The rows are sorted by the parent id and grouped; \<^verbatim>\<open>self.task_by_id[parent_id]\<close> raises
  \<^verbatim>\<open>KeyError\<close> for a parent id that the task map does not hold.
\<close>

definition task_with_branches_by_id ::
  "(string \<times> Task) list \<Rightarrow> error + (string \<times> TaskWithBranches) list" where
  "task_with_branches_by_id tbi =
     (case collect
        (map (\<lambda>(parent_id, children).
                case map_of tbi parent_id of
                  None \<Rightarrow> Inl KeyError
                | Some parent \<Rightarrow> Inr (parent_id, with_branches parent (map snd children)))
             (groupby fst (sort_key fst (branch_rows tbi)))) of
        Inl e \<Rightarrow> Inl e
      | Inr kvs \<Rightarrow> Inr (py_dict kvs))"

section \<open>Node renderer\<close>

text \<open>
  What the facet hands to Graphviz. A compound node carries a table: a first row with the
  glyph cell (port \<^verbatim>\<open>xor\<close>) and the bold title cell (port \<^verbatim>\<open>title\<close>), then one row
  with one cell per branch. The constant styling of the table (borders, padding, fonts) is
  not represented; the conversion of the table to markup text belongs to the \<^verbatim>\<open>dominate\<close> library.
\<close>

record td_cell =
  content :: string
  border :: nat
  sides :: string
  port :: string
  colspan :: string

record html_table =
  header :: "(string \<times> string) list"
  table_rows :: "td_cell list"
  bgcolor :: string

datatype label = Html_table html_table | Html_text string

record node =
  name :: string
  label :: label
  node_attrs :: "(string \<times> string) list"

record edge =
  tail_name :: string
  head_name :: string
  color :: string
  penwidth :: string
  headport :: "string option"
  tailport :: "string option"

record graph =
  nodes :: "node list"
  edges :: "edge list"

definition table_rows_of ::
  "(string \<Rightarrow> string list) \<Rightarrow> TaskWithBranches \<Rightarrow> td_cell list" where
  "table_rows_of wrap task =
     map (\<lambda>(index, branch).
            \<lparr>content = wrap_html wrap (title branch) ''center'',
             border = (if int index < int (length (branches task)) - 1 then 1 else 0),
             sides = ''tb'',
             port = id' branch,
             colspan = ''2''\<rparr>)
         (enumerate 0 (branches task))"

definition compound_node :: "(string \<Rightarrow> string list) \<Rightarrow> TaskWithBranches \<Rightarrow> node" where
  "compound_node wrap task =
     (let wrapped_title = wrap_html wrap (title task) ''left'' in
      \<lparr>name = id' task,
       label = Html_table
         \<lparr>header = [(''xor'', [CHR 0xE2, CHR 0x8A, CHR 0xBB]),
                    (''title'', ''<b>'' @ wrapped_title @ ''</b>'')],
          table_rows = table_rows_of wrap task,
          bgcolor = background_color task\<rparr>,
       node_attrs = [(''shape'', ''none''), (''fontcolor'', ''white''),
                     (''fontname'', ''Arial''), (''color'', pen_color task)]\<rparr>)"

definition draw_nodes_with_branches ::
  "(string \<Rightarrow> string list) \<Rightarrow> (string \<times> TaskWithBranches) list \<Rightarrow> node list" where
  "draw_nodes_with_branches wrap twb = map (\<lambda>(parent_id, task). compound_node wrap task) twb"

definition plain_node :: "(string \<Rightarrow> string list) \<Rightarrow> Task \<Rightarrow> node" where
  "plain_node wrap task =
     (let label' = wrap_html wrap (title task) ''center'' in
      \<lparr>name = id' task,
       label = Html_text (''<<b>'' @ label' @ ''</b>>''),
       node_attrs = [(''shape'', ''rect''), (''style'', ''filled,rounded''),
                     (''fontcolor'', ''white''), (''fontname'', ''Arial''),
                     (''fillcolor'', background_color task), (''color'', pen_color task),
                     (''margin'', ''0.3'')]\<rparr>)"

definition draw_nodes_without_branches ::
  "(string \<Rightarrow> string list) \<Rightarrow> (string \<times> Task) list \<Rightarrow> (string \<times> TaskWithBranches) list
     \<Rightarrow> node list" where
  "draw_nodes_without_branches wrap tbi twb =
     (let tasks = filter (\<lambda>task. id' task \<notin> fst ` set twb \<and> is_branch_of task = [])
                         (map snd tbi)
      in map (plain_node wrap) tasks)"

section \<open>Edge resolver\<close>

text \<open>
  The body of the inner loop of \<^verbatim>\<open>draw_edges\<close>: \<open>None\<close> when the iteration adds no edge.
  \<^verbatim>\<open>funcy.first\<close> of an empty list is \<^verbatim>\<open>None\<close>, and an empty string is false as well.
\<close>

definition edge_for ::
  "(string \<times> Task) list \<Rightarrow> (string \<times> TaskWithBranches) list \<Rightarrow> Task \<Rightarrow> string \<Rightarrow> edge option" where
  "edge_for tbi twb task blocked_task_id =
     (case map_of tbi blocked_task_id of
        None \<Rightarrow> None
      | Some blocked_task \<Rightarrow>
          let otherwise =
                (if blocked_task_id \<in> fst ` set twb
                 then (blocked_task_id @ '':xor:w'', None)
                 else (blocked_task_id, Some ''w''));
              (head, headport') =
                (case is_branch_of blocked_task of
                   [] \<Rightarrow> otherwise
                 | parent_node_id # _ \<Rightarrow>
                     if parent_node_id \<noteq> []
                     then (parent_node_id @ '':'' @ blocked_task_id @ '':w'', None)
                     else otherwise);
              (source_task_id, tailport') =
                (if id' task \<in> fst ` set twb
                 then (id' task @ '':title:e'', None)
                 else (id' task, Some ''e''))
          in if id' task \<in> fst ` set tbi
             then Some \<lparr>tail_name = source_task_id,
                        head_name = head,
                        color = ''#4B5D6C'',
                        penwidth = ''2.5'',
                        headport = headport',
                        tailport = tailport'\<rparr>
             else None)"

definition draw_edges ::
  "(string \<times> Task) list \<Rightarrow> (string \<times> TaskWithBranches) list \<Rightarrow> edge list" where
  "draw_edges tbi twb =
     concat (map (\<lambda>task. List.map_filter (edge_for tbi twb task) (blocks task)) (map snd tbi))"

section \<open>The render call\<close>

text \<open>
  \<^verbatim>\<open>show\<close>: both maps are computed on first use, while the compound nodes are drawn, so a
  failure of either ends the call before any edge is drawn. The result is the graph handed
  to \<^verbatim>\<open>graph.render\<close>.
\<close>

definition show_graph ::
  "(string list \<Rightarrow> string list) \<Rightarrow> (string \<Rightarrow> string list) \<Rightarrow> row list \<Rightarrow> error + graph" where
  "show_graph enum wrap rows =
     (case task_by_id enum rows of
        Inl e \<Rightarrow> Inl e
      | Inr tbi \<Rightarrow>
          (case task_with_branches_by_id tbi of
             Inl e \<Rightarrow> Inl e
           | Inr twb \<Rightarrow>
               Inr \<lparr>nodes = draw_nodes_with_branches wrap twb
                             @ draw_nodes_without_branches wrap tbi twb,
                    edges = draw_edges tbi twb\<rparr>))"

section \<open>Notions used to state the properties\<close>

text \<open>
  What Python guarantees of \<^verbatim>\<open>list(set(xs))\<close>: the elements of \<open>xs\<close>, each once, in some
  order.
\<close>

definition set_order :: "(string list \<Rightarrow> string list) \<Rightarrow> bool" where
  "set_order enum \<longleftrightarrow> (\<forall>xs. set (enum xs) = set xs \<and> distinct (enum xs))"

text \<open>
  The pairs (source task, blocked id) of the iterations of the loop of \<^verbatim>\<open>draw_edges\<close>
  that call \<^verbatim>\<open>graph.edge\<close>, in the order of the calls.
\<close>

definition emitted_pairs ::
  "(string \<times> Task) list \<Rightarrow> (string \<times> TaskWithBranches) list \<Rightarrow> (string \<times> string) list" where
  "emitted_pairs tbi twb =
     concat (map (\<lambda>task. map (\<lambda>blocked_task_id. (id' task, blocked_task_id))
                              (filter (\<lambda>blocked_task_id. edge_for tbi twb task blocked_task_id \<noteq> None)
                                      (blocks task)))
                 (map snd tbi))"

text \<open>
  The anchor rules in the words of the specification. An end of an edge is either a named
  anchor of a node, entered from a side, or the outer boundary of a node on a side. Graphviz
  addresses the first as \<^verbatim>\<open>node:anchor:side\<close> with no separate side parameter, the second as
  \<^verbatim>\<open>node\<close> with the side as \<^verbatim>\<open>headport\<close> or \<^verbatim>\<open>tailport\<close>.
\<close>

datatype endpoint = Anchor string string string | Boundary string string

fun endpoint_name :: "endpoint \<Rightarrow> string" where
  "endpoint_name (Anchor node anchor side) = node @ '':'' @ anchor @ '':'' @ side"
| "endpoint_name (Boundary node side) = node"

fun endpoint_side :: "endpoint \<Rightarrow> string option" where
  "endpoint_side (Anchor node anchor side) = None"
| "endpoint_side (Boundary node side) = Some side"

text \<open>
  Destination: (a) the sub-row anchor of D in the node of its parent, the first entry of
  \<^verbatim>\<open>is_branch_of\<close>; (b) else the \<^verbatim>\<open>xor\<close> anchor of D when D is a compound-task key; (c)
  else the outer boundary of D; always from the west.
\<close>

definition spec_destination ::
  "(string \<times> TaskWithBranches) list \<Rightarrow> string \<Rightarrow> Task \<Rightarrow> endpoint" where
  "spec_destination twb d blocked_task =
     (case is_branch_of blocked_task of
        parent # _ \<Rightarrow> Anchor parent d ''w''
      | [] \<Rightarrow> if d \<in> fst ` set twb then Anchor d ''xor'' ''w'' else Boundary d ''w'')"

text \<open>
  Source: (a) the \<^verbatim>\<open>title\<close> anchor of T when T is a compound-task key; (b) else the outer
  boundary of T; always to the east.
\<close>

definition spec_source :: "(string \<times> TaskWithBranches) list \<Rightarrow> Task \<Rightarrow> endpoint" where
  "spec_source twb task =
     (if id' task \<in> fst ` set twb then Anchor (id' task) ''title'' ''e''
      else Boundary (id' task) ''e'')"

definition spec_edge :: "(string \<times> TaskWithBranches) list \<Rightarrow> Task \<Rightarrow> string \<Rightarrow> Task \<Rightarrow> edge" where
  "spec_edge twb task d blocked_task =
     \<lparr>tail_name = endpoint_name (spec_source twb task),
      head_name = endpoint_name (spec_destination twb d blocked_task),
      color = ''#4B5D6C'',
      penwidth = ''2.5'',
      headport = endpoint_side (spec_destination twb d blocked_task),
      tailport = endpoint_side (spec_source twb task)\<rparr>"

text \<open>The sub-rows of a node as drawn: the port and the markup text of each branch cell.\<close>

definition sub_rows :: "node \<Rightarrow> (string \<times> string) list" where
  "sub_rows n =
     (case label n of
        Html_table tab \<Rightarrow> map (\<lambda>c. (port c, content c)) (table_rows tab)
      | Html_text _ \<Rightarrow> [])"

text \<open>
  The source identifiers that the rows bind to a variable, and the anchors that the nodes
  of a graph declare: a node name with the port of one of its sub-rows.
\<close>

definition source_ids :: "string \<Rightarrow> row list \<Rightarrow> string set" where
  "source_ids field rows = {x. \<exists>row\<in>set rows. row field = Some x}"

definition anchors :: "graph \<Rightarrow> (string \<times> string) set" where
  "anchors g = {(name n, p) | n p. n \<in> set (nodes g) \<and> p \<in> fst ` set (sub_rows n)}"

text \<open>
  Rows collated by a variable: the rows with one value of it are consecutive, so the values
  of the successive runs are pairwise different.
\<close>

definition collated :: "string \<Rightarrow> row list \<Rightarrow> bool" where
  "collated field rows \<longleftrightarrow> distinct (remdups_adj (List.map_filter (\<lambda>row. row field) rows))"

section \<open>Sample inputs\<close>

text \<open>
  Two rows of one task: only the second carries the \<^verbatim>\<open>is_bug\<close> marker.
\<close>

definition late_marker_rows :: "row list" where
  "late_marker_rows =
     [[''task'' \<mapsto> ''ex:a'', ''title'' \<mapsto> ''A''],
      [''task'' \<mapsto> ''ex:a'', ''title'' \<mapsto> ''A'', ''is_bug'' \<mapsto> ''true'']]"

text \<open>
  A roadmap: P has the branch X, X has the branch Y, and Q blocks X (on two rows), P, and
  a task that has no rows. The title of X has a pipe.
\<close>

definition roadmap_rows :: "row list" where
  "roadmap_rows =
     [[''task'' \<mapsto> ''ex:Q'', ''title'' \<mapsto> ''Q'', ''blocks'' \<mapsto> ''ex:X''],
      [''task'' \<mapsto> ''ex:Q'', ''title'' \<mapsto> ''Q'', ''blocks'' \<mapsto> ''ex:gone''],
      [''task'' \<mapsto> ''ex:Q'', ''title'' \<mapsto> ''Q'', ''blocks'' \<mapsto> ''ex:X''],
      [''task'' \<mapsto> ''ex:Q'', ''title'' \<mapsto> ''Q'', ''blocks'' \<mapsto> ''ex:P''],
      [''task'' \<mapsto> ''ex:P'', ''title'' \<mapsto> ''P''],
      [''task'' \<mapsto> ''ex:X'', ''title'' \<mapsto> ''a|b'', ''is_branch_of'' \<mapsto> ''ex:P''],
      [''task'' \<mapsto> ''ex:Y'', ''title'' \<mapsto> ''Y'', ''is_branch_of'' \<mapsto> ''ex:X'']]"

definition roadmap_tasks :: "(string \<times> Task) list" where
  "roadmap_tasks =
     [(''ex_P'', \<lparr>id' = ''ex_P'', title = ''P'', is_bug = False, is_focused = False,
                  blocks = [], is_branch_of = []\<rparr>),
      (''ex_Q'', \<lparr>id' = ''ex_Q'', title = ''Q'', is_bug = False, is_focused = False,
                  blocks = [''ex_gone'', ''ex_X'', ''ex_P''], is_branch_of = []\<rparr>),
      (''ex_X'', \<lparr>id' = ''ex_X'', title = ''a|b'', is_bug = False, is_focused = False,
                  blocks = [], is_branch_of = [''ex_P'']\<rparr>),
      (''ex_Y'', \<lparr>id' = ''ex_Y'', title = ''Y'', is_bug = False, is_focused = False,
                  blocks = [], is_branch_of = [''ex_X'']\<rparr>)]"

definition roadmap_compound :: "(string \<times> TaskWithBranches) list" where
  "roadmap_compound =
     [(''ex_P'', \<lparr>id' = ''ex_P'', title = ''P'', is_bug = False, is_focused = False,
                  blocks = [], is_branch_of = [],
                  branches = [\<lparr>id' = ''ex_X'', title = ''a|b'', is_bug = False,
                               is_focused = False, blocks = [], is_branch_of = [''ex_P'']\<rparr>]\<rparr>),
      (''ex_X'', \<lparr>id' = ''ex_X'', title = ''a|b'', is_bug = False, is_focused = False,
                  blocks = [], is_branch_of = [''ex_P''],
                  branches = [\<lparr>id' = ''ex_Y'', title = ''Y'', is_bug = False,
                               is_focused = False, blocks = [], is_branch_of = [''ex_X'']\<rparr>]\<rparr>)]"

text \<open>
  A stand-in for \<^verbatim>\<open>textwrap.wrap(_, width=20)\<close> on the titles of the samples: a text of one
  word of at most twenty characters is one line, an empty text has no line.
\<close>

definition one_line :: "string \<Rightarrow> string list" where
  "one_line s = (if s = [] then [] else [s])"

text \<open>A task map whose only task names a parent that has no entry.\<close>

definition dangling_tasks :: "(string \<times> Task) list" where
  "dangling_tasks =
     [(''ex_X'', \<lparr>id' = ''ex_X'', title = ''X'', is_bug = False, is_focused = False,
                  blocks = [], is_branch_of = [''ex_P'']\<rparr>)]"

text \<open>The rows of the branch query for the same roadmap.\<close>

definition roadmap_branch_rows :: "row list" where
  "roadmap_branch_rows =
     [[''task'' \<mapsto> ''ex:P'', ''branch'' \<mapsto> ''ex:X'', ''title'' \<mapsto> ''a|b''],
      [''task'' \<mapsto> ''ex:X'', ''branch'' \<mapsto> ''ex:Y'', ''title'' \<mapsto> ''Y'']]"

text \<open>The graph of the sample roadmap, with the stand-in for the line breaking.\<close>

definition roadmap_graph :: graph where
  "roadmap_graph =
     \<lparr>nodes = draw_nodes_with_branches one_line roadmap_compound
                @ draw_nodes_without_branches one_line roadmap_tasks roadmap_compound,
      edges = draw_edges roadmap_tasks roadmap_compound\<rparr>"

text \<open>Rows of the branch query in which the root P comes back after another root.\<close>

definition recurring_root_rows :: "row list" where
  "recurring_root_rows =
     [[''task'' \<mapsto> ''ex:P'', ''branch'' \<mapsto> ''ex:X'', ''title'' \<mapsto> ''X''],
      [''task'' \<mapsto> ''ex:R'', ''branch'' \<mapsto> ''ex:Z'', ''title'' \<mapsto> ''Z''],
      [''task'' \<mapsto> ''ex:P'', ''branch'' \<mapsto> ''ex:Y'', ''title'' \<mapsto> ''Y'']]"

section \<open>Facts about the helpers\<close>

subsection \<open>collect\<close>

lemma collect_map_Inr_id: "collect (map Inr as) = Inr as"
  by (induction as) simp_all

lemma collect_InrD: "collect rs = Inr as \<Longrightarrow> rs = map Inr as"
proof (induction rs arbitrary: as)
  case Nil
  then show ?case by simp
next
  case (Cons r rs)
  show ?case
  proof (cases r)
    case (Inl e)
    with Cons.prems show ?thesis by simp
  next
    case (Inr a)
    with Cons.prems obtain as' where "collect rs = Inr as'" "as = a # as'"
      by (auto split: sum.splits)
    with Cons.IH Inr show ?thesis by simp
  qed
qed

lemma collect_Inr_iff: "collect rs = Inr as \<longleftrightarrow> rs = map Inr as"
  using collect_InrD collect_map_Inr_id by blast

lemma collect_map_Inr:
  "collect (map h xs) = Inr ys \<Longrightarrow> list_all2 (\<lambda>x y. h x = Inr y) xs ys"
  by (simp add: collect_Inr_iff list_all2_conv_all_nth list_eq_iff_nth_eq)

lemma collect_Inl_mem: "collect rs = Inl e \<Longrightarrow> Inl e \<in> set rs"
proof (induction rs)
  case Nil
  then show ?case by simp
next
  case (Cons r rs)
  then show ?case by (cases r) (auto split: sum.splits)
qed

lemma collect_fails: "Inl e \<in> set rs \<Longrightarrow> \<exists>e'. collect rs = Inl e'"
proof (induction rs)
  case Nil
  then show ?case by simp
next
  case (Cons r rs)
  then show ?case by (cases r) (auto split: sum.splits)
qed

subsection \<open>groupby\<close>

lemma groupby_concat: "concat (map snd (groupby f xs)) = xs"
  by (induction f xs rule: groupby.induct) simp_all

lemma groupby_group:
  "(k, g) \<in> set (groupby f xs) \<Longrightarrow> g \<noteq> [] \<and> (\<forall>x\<in>set g. f x = k) \<and> set g \<subseteq> set xs"
proof (induction f xs rule: groupby.induct)
  case (1 key)
  then show ?case by simp
next
  case (2 key x xs)
  from "2.prems" consider
      "k = key x" "g = x # takeWhile (\<lambda>y. key y = key x) xs"
    | "(k, g) \<in> set (groupby key (dropWhile (\<lambda>y. key y = key x) xs))"
    by auto
  then show ?case
  proof cases
    case 1
    then show ?thesis by (auto dest: set_takeWhileD)
  next
    case 2
    with "2.IH" show ?thesis by (auto dest: set_dropWhileD)
  qed
qed

lemma groupby_keys: "fst ` set (groupby f xs) = f ` set xs"
proof (induction f xs rule: groupby.induct)
  case (1 key)
  then show ?case by simp
next
  case (2 key x xs)
  have "set xs = set (takeWhile (\<lambda>y. key y = key x) xs) \<union> set (dropWhile (\<lambda>y. key y = key x) xs)"
    by (metis set_append takeWhile_dropWhile_id)
  moreover have "key ` set (takeWhile (\<lambda>y. key y = key x) xs) \<subseteq> {key x}"
    by (auto dest: set_takeWhileD)
  ultimately show ?case using "2.IH" by auto
qed

lemma sorted_takeWhile_filter:
  fixes f :: "'a \<Rightarrow> 'k::linorder"
  shows "sorted (map f xs) \<Longrightarrow> \<forall>y\<in>set xs. a \<le> f y \<Longrightarrow>
    takeWhile (\<lambda>y. f y = a) xs = filter (\<lambda>y. f y = a) xs \<and>
    dropWhile (\<lambda>y. f y = a) xs = filter (\<lambda>y. f y \<noteq> a) xs"
proof (induction xs)
  case Nil
  then show ?case by simp
next
  case (Cons y ys)
  show ?case
  proof (cases "f y = a")
    case True
    with Cons show ?thesis by simp
  next
    case False
    with Cons.prems have "a < f y" by auto
    with Cons.prems have "\<forall>z\<in>set ys. f z \<noteq> a" by fastforce
    with False show ?thesis by (simp add: filter_empty_conv)
  qed
qed

lemma groupby_sorted:
  fixes f :: "'a \<Rightarrow> 'k::linorder"
  assumes "sorted (map f xs)"
  shows "distinct (map fst (groupby f xs)) \<and>
         (\<forall>(k, g)\<in>set (groupby f xs). g = filter (\<lambda>x. f x = k) xs)"
  using assms
proof (induction f xs rule: groupby.induct)
  case (1 key)
  then show ?case by simp
next
  case (2 key x xs)
  let ?d = "dropWhile (\<lambda>y. key y = key x) xs"
  have low: "\<forall>y\<in>set xs. key x \<le> key y" using "2.prems" by simp
  have srt: "sorted (map key xs)" using "2.prems" by simp
  have tk: "takeWhile (\<lambda>y. key y = key x) xs = filter (\<lambda>y. key y = key x) xs"
    and dr: "?d = filter (\<lambda>y. key y \<noteq> key x) xs"
    using sorted_takeWhile_filter[OF srt low] by simp_all
  have "sorted (map key ?d)" unfolding dr using srt by (simp add: sorted_filter)
  with "2.IH" have ih: "distinct (map fst (groupby key ?d))"
      "\<forall>(k, g)\<in>set (groupby key ?d). g = filter (\<lambda>x. key x = k) ?d"
    by auto
  have notin: "key x \<notin> fst ` set (groupby key ?d)"
    unfolding groupby_keys dr by auto
  have rest: "g = filter (\<lambda>y. key y = k) (x # xs)" if "(k, g) \<in> set (groupby key ?d)" for k g
  proof -
    from that notin have "k \<noteq> key x" by force
    moreover from that ih(2) have "g = filter (\<lambda>y. key y = k) ?d" by auto
    ultimately show ?thesis unfolding dr by (auto intro!: filter_cong)
  qed
  show ?case using ih(1) notin rest tk by auto
qed

lemma groupby_sort_key:
  fixes f :: "'a \<Rightarrow> 'k::linorder"
  shows "distinct (map fst (groupby f (sort_key f xs)))"
    and "fst ` set (groupby f (sort_key f xs)) = f ` set xs"
    and "(k, g) \<in> set (groupby f (sort_key f xs)) \<Longrightarrow> g = filter (\<lambda>x. f x = k) xs \<and> g \<noteq> []"
proof -
  have s: "sorted (map f (sort_key f xs))" by simp
  show "distinct (map fst (groupby f (sort_key f xs)))"
    using groupby_sorted[OF s] by simp
  show "fst ` set (groupby f (sort_key f xs)) = f ` set xs"
    by (simp add: groupby_keys)
  show "g = filter (\<lambda>x. f x = k) xs \<and> g \<noteq> []" if "(k, g) \<in> set (groupby f (sort_key f xs))"
    using groupby_sorted[OF s] that groupby_group[OF that] by (auto simp: sort_key_stable)
qed

subsection \<open>py_dict\<close>

lemma fold_update_distinct:
  "distinct (map fst acc) \<Longrightarrow>
   distinct (map fst (fold (\<lambda>(k, v) d. AList.update k v d) kvs acc))"
  by (induction kvs arbitrary: acc) (auto simp: distinct_update split: prod.splits)

lemma fold_update_subset:
  "set (fold (\<lambda>(k, v) d. AList.update k v d) kvs acc) \<subseteq> set acc \<union> set kvs"
proof (induction kvs arbitrary: acc)
  case Nil
  then show ?case by simp
next
  case (Cons kv kvs)
  obtain k v where kv: "kv = (k, v)" by (cases kv)
  have "set (AList.update k v acc) \<subseteq> insert (k, v) (set acc)"
    by (induction acc) auto
  with Cons[of "AList.update k v acc"] show ?case unfolding kv by auto
qed

lemma fold_update_keys:
  "fst ` set (fold (\<lambda>(k, v) d. AList.update k v d) kvs acc) = fst ` set acc \<union> fst ` set kvs"
  by (induction kvs arbitrary: acc) (auto simp: dom_update split: prod.splits)

lemma fold_update_id:
  "distinct (map fst (acc @ kvs)) \<Longrightarrow>
   fold (\<lambda>(k, v) d. AList.update k v d) kvs acc = acc @ kvs"
proof (induction kvs arbitrary: acc)
  case Nil
  then show ?case by simp
next
  case (Cons kv kvs)
  obtain k v where kv: "kv = (k, v)" by (cases kv)
  have "k \<notin> fst ` set acc" using Cons.prems kv by auto
  then have u: "AList.update k v acc = acc @ [(k, v)]"
    by (induction acc) auto
  show ?case using Cons.IH[of "acc @ [(k, v)]"] Cons.prems by (simp add: kv u)
qed

lemma py_dict_distinct: "distinct (map fst (py_dict kvs))"
  unfolding py_dict_def by (rule fold_update_distinct) simp

lemma py_dict_subset: "set (py_dict kvs) \<subseteq> set kvs"
  unfolding py_dict_def using fold_update_subset[of kvs "[]"] by simp

lemma py_dict_keys: "fst ` set (py_dict kvs) = fst ` set kvs"
  unfolding py_dict_def using fold_update_keys[of kvs "[]"] by simp

lemma py_dict_id: "distinct (map fst kvs) \<Longrightarrow> py_dict kvs = kvs"
  unfolding py_dict_def using fold_update_id[of "[]" kvs] by simp

lemma groupby_sorted_keys:
  fixes f :: "'a \<Rightarrow> 'k::linorder"
  assumes "sorted (map f xs)"
  shows "sorted (map fst (groupby f xs))"
  using assms
proof (induction f xs rule: groupby.induct)
  case (1 key)
  then show ?case by simp
next
  case (2 key x xs)
  let ?d = "dropWhile (\<lambda>y. key y = key x) xs"
  have low: "\<forall>y\<in>set xs. key x \<le> key y" and srt: "sorted (map key xs)"
    using "2.prems" by simp_all
  have dr: "?d = filter (\<lambda>y. key y \<noteq> key x) xs"
    using sorted_takeWhile_filter[OF srt low] by simp
  have "sorted (map key ?d)" unfolding dr using srt by (simp add: sorted_filter)
  with "2.IH" have "sorted (map fst (groupby key ?d))" by simp
  moreover have "\<forall>k\<in>fst ` set (groupby key ?d). key x \<le> k"
    unfolding groupby_keys using low by (auto dest: set_dropWhileD)
  ultimately show ?case by auto
qed

lemma groupby_sort_key_keys:
  fixes f :: "'a \<Rightarrow> 'k::linorder"
  shows "map fst (groupby f (sort_key f xs)) = sort (remdups (map f xs))"
proof (rule sorted_distinct_set_unique)
  show "sorted (map fst (groupby f (sort_key f xs)))"
    by (rule groupby_sorted_keys) simp
  show "distinct (map fst (groupby f (sort_key f xs)))"
    by (rule groupby_sort_key(1))
  show "set (map fst (groupby f (sort_key f xs))) = set (sort (remdups (map f xs)))"
    using groupby_sort_key(2)[of f xs] by simp
qed simp_all

subsection \<open>The normalizer\<close>

lemma those_map_Some:
  "those (map g xs) = Some ys \<Longrightarrow> list_all2 (\<lambda>x y. g x = Some y) xs ys"
proof (induction xs arbitrary: ys)
  case Nil
  then show ?case by simp
next
  case (Cons x xs)
  then show ?case by (auto split: option.splits)
qed

lemma keyed_Inr:
  assumes "keyed field rows = Inr krs"
  shows "list_all2 (\<lambda>row kr. snd kr = row \<and> row field = Some (fst kr)) rows krs"
proof -
  from assms have "those (map (\<lambda>row. map_option (\<lambda>k. (k, row)) (row field)) rows) = Some krs"
    by (auto simp: keyed_def split: option.splits)
  from those_map_Some[OF this] show ?thesis
    by (rule list_all2_mono) auto
qed

lemma keyed_filter:
  "list_all2 (\<lambda>row kr. snd kr = row \<and> row field = Some (fst kr)) rows krs \<Longrightarrow>
   map snd (filter (\<lambda>kr. fst kr = tid) krs) = filter (\<lambda>row. row field = Some tid) rows"
  by (induction rows krs rule: list_all2_induct) auto

lemma keyed_keys:
  "list_all2 (\<lambda>row kr. snd kr = row \<and> row field = Some (fst kr)) rows krs \<Longrightarrow>
   map fst krs = List.map_filter (\<lambda>row. row field) rows"
  by (induction rows krs rule: list_all2_induct) (auto simp: List.map_filter_simps)

lemma task_of_group_Inr:
  assumes "task_of_group enum (tid, rs) = Inr (k, T)"
  obtains first_row rest ttl where
    "rs = first_row # rest" "first_row ''title'' = Some ttl" "k = as_graph_id tid"
    "T = \<lparr>id' = as_graph_id tid, title = ttl,
           is_bug = (first_row ''is_bug'' \<noteq> None),
           is_focused = (first_row ''is_focused'' \<noteq> None),
           blocks = enum (referenced ''blocks'' rs),
           is_branch_of = enum (referenced ''is_branch_of'' rs)\<rparr>"
  using assms by (auto simp: task_of_group_def Let_def split: list.splits option.splits)

lemma stream_groups:
  assumes "task_by_id_stream enum rows = Inr st"
  shows "list_all2 (\<lambda>tid kT. task_of_group enum (tid, filter (\<lambda>row. row ''task'' = Some tid) rows) = Inr kT)
           (sort (remdups (List.map_filter (\<lambda>row. row ''task'') rows))) st"
proof -
  from assms obtain krs where k: "keyed ''task'' rows = Inr krs"
    and c: "collect (map (\<lambda>(task_id, rows_per_task). task_of_group enum (task_id, map snd rows_per_task))
                       (groupby fst (sort_key fst krs))) = Inr st"
    by (auto simp: task_by_id_stream_def split: sum.splits)
  let ?G = "groupby fst (sort_key fst krs)"
  note rel = keyed_Inr[OF k]
  have grp: "map snd g = filter (\<lambda>row. row ''task'' = Some tid) rows" if "(tid, g) \<in> set ?G" for tid g
    using groupby_sort_key(3)[OF that] keyed_filter[OF rel, of tid] by simp
  have "list_all2 (\<lambda>x kT. (case x of (task_id, rows_per_task) \<Rightarrow>
            task_of_group enum (task_id, map snd rows_per_task)) = Inr kT) ?G st"
    using collect_map_Inr[OF c] .
  then have "list_all2 (\<lambda>x kT. task_of_group enum (fst x, filter (\<lambda>row. row ''task'' = Some (fst x)) rows) = Inr kT) ?G st"
    by (rule list.rel_mono_strong) (auto simp: grp)
  then have "list_all2 (\<lambda>tid kT. task_of_group enum (tid, filter (\<lambda>row. row ''task'' = Some tid) rows) = Inr kT)
      (map fst ?G) st"
    by (simp add: list_all2_map1)
  then show ?thesis
    by (simp add: groupby_sort_key_keys keyed_keys[OF rel])
qed

lemma filter_Cons_find: "filter P xs = x # rest \<Longrightarrow> find P xs = Some x"
  by (induction xs) (auto split: if_splits)

section \<open>The flags of a normalized task\<close>

text \<open>
  C2, as amended. The stream of \<^verbatim>\<open>_task_by_id_stream\<close> holds one Task for every distinct
  task id of the rows, in increasing order of the ids, and \<^verbatim>\<open>is_bug\<close> (respectively
  \<^verbatim>\<open>is_focused\<close>) of that Task is true if and only if the marker is present on the first
  row of the task, in the order of the input; the later rows of the group are not read
  for the flags.
\<close>

theorem flags_from_first_row:
  assumes "task_by_id_stream enum rows = Inr st"
  shows "list_all2
           (\<lambda>tid kT. fst kT = as_graph_id tid \<and>
              (\<exists>first_row. find (\<lambda>row. row ''task'' = Some tid) rows = Some first_row \<and>
                 (is_bug (snd kT) \<longleftrightarrow> first_row ''is_bug'' \<noteq> None) \<and>
                 (is_focused (snd kT) \<longleftrightarrow> first_row ''is_focused'' \<noteq> None)))
           (sort (remdups (List.map_filter (\<lambda>row. row ''task'') rows))) st"
proof (rule list.rel_mono_strong[OF stream_groups[OF assms]])
  fix tid kT
  assume g: "task_of_group enum (tid, filter (\<lambda>row. row ''task'' = Some tid) rows) = Inr kT"
  obtain k T where kT: "kT = (k, T)" by (cases kT)
  from g[unfolded kT] obtain first_row rest ttl where
    f: "filter (\<lambda>row. row ''task'' = Some tid) rows = first_row # rest"
    and k: "k = as_graph_id tid"
    and T: "T = \<lparr>id' = as_graph_id tid, title = ttl,
           is_bug = (first_row ''is_bug'' \<noteq> None),
           is_focused = (first_row ''is_focused'' \<noteq> None),
           blocks = enum (referenced ''blocks'' (filter (\<lambda>row. row ''task'' = Some tid) rows)),
           is_branch_of = enum (referenced ''is_branch_of'' (filter (\<lambda>row. row ''task'' = Some tid) rows))\<rparr>"
    by (rule task_of_group_Inr)
  from filter_Cons_find[OF f] k T
  show "fst kT = as_graph_id tid \<and>
        (\<exists>first_row. find (\<lambda>row. row ''task'' = Some tid) rows = Some first_row \<and>
           (is_bug (snd kT) \<longleftrightarrow> first_row ''is_bug'' \<noteq> None) \<and>
           (is_focused (snd kT) \<longleftrightarrow> first_row ''is_focused'' \<noteq> None))"
    by (simp add: kT)
qed

theorem flags_from_first_row_witness:
  "task_by_id_stream remdups roadmap_rows = Inr roadmap_tasks \<and>
   list_all2
     (\<lambda>tid kT. fst kT = as_graph_id tid \<and>
        (\<exists>first_row. find (\<lambda>row. row ''task'' = Some tid) roadmap_rows = Some first_row \<and>
           (is_bug (snd kT) \<longleftrightarrow> first_row ''is_bug'' \<noteq> None) \<and>
           (is_focused (snd kT) \<longleftrightarrow> first_row ''is_focused'' \<noteq> None)))
     (sort (remdups (List.map_filter (\<lambda>row. row ''task'') roadmap_rows))) roadmap_tasks"
proof -
  have h: "task_by_id_stream remdups roadmap_rows = Inr roadmap_tasks"
    by code_simp
  show ?thesis using h flags_from_first_row[OF h] by simp
qed

theorem flag_on_later_row_counterexample:
  "task_by_id remdups late_marker_rows =
     Inr [(''ex_a'', \<lparr>id' = ''ex_a'', title = ''A'', is_bug = False, is_focused = False,
                     blocks = [], is_branch_of = []\<rparr>)] \<and>
   (late_marker_rows ! 1) ''task'' = Some ''ex:a'' \<and>
   (late_marker_rows ! 1) ''is_bug'' \<noteq> None"
  by code_simp

lemma as_graph_id_Nil: "as_graph_id x = [] \<longleftrightarrow> x = []"
  by (simp add: as_graph_id_def)

lemma referenced_set:
  "set (referenced field rs) =
     {as_graph_id x | row x. row \<in> set rs \<and> row field = Some x \<and> x \<noteq> []}"
proof (induction rs)
  case Nil
  then show ?case by (simp add: referenced_def List.map_filter_simps)
next
  case (Cons r rs)
  have step: "referenced field (r # rs) =
      (case r field of None \<Rightarrow> referenced field rs
       | Some x \<Rightarrow> if x = [] then referenced field rs else as_graph_id x # referenced field rs)"
    by (simp add: referenced_def List.map_filter_simps split: option.splits)
  show ?case unfolding step using Cons.IH by (auto split: option.splits)
qed

lemma referenced_nonempty: "[] \<notin> set (referenced field rs)"
  by (auto simp: referenced_set as_graph_id_def)

lemma list_all2_right_mem:
  "list_all2 P xs ys \<Longrightarrow> y \<in> set ys \<Longrightarrow> \<exists>x\<in>set xs. P x y"
  by (induction xs ys rule: list_all2_induct) auto

lemma stream_entry:
  assumes "task_by_id_stream enum rows = Inr st" and "(k, T) \<in> set st"
  obtains tid row where "row \<in> set rows" "row ''task'' = Some tid"
    "task_of_group enum (tid, filter (\<lambda>row. row ''task'' = Some tid) rows) = Inr (k, T)"
proof -
  from list_all2_right_mem[OF stream_groups[OF assms(1)] assms(2)]
  obtain tid where m: "tid \<in> set (List.map_filter (\<lambda>row. row ''task'') rows)"
    and g: "task_of_group enum (tid, filter (\<lambda>row. row ''task'' = Some tid) rows) = Inr (k, T)"
    by auto
  from m obtain row where "row \<in> set rows" "row ''task'' = Some tid"
    by (auto simp: List.map_filter_def)
  with g that show thesis by blast
qed

lemma task_by_id_Inr:
  assumes "task_by_id enum rows = Inr tbi"
  obtains st where "task_by_id_stream enum rows = Inr st" "tbi = py_dict st"
  using assms by (auto simp: task_by_id_def split: sum.splits)

lemma task_by_id_distinct: "task_by_id enum rows = Inr tbi \<Longrightarrow> distinct (map fst tbi)"
  by (auto elim!: task_by_id_Inr simp: py_dict_distinct)

lemma task_by_id_entry:
  assumes "task_by_id enum rows = Inr tbi" and "(k, T) \<in> set tbi"
  obtains tid row where "row \<in> set rows" "row ''task'' = Some tid"
    "task_of_group enum (tid, filter (\<lambda>row. row ''task'' = Some tid) rows) = Inr (k, T)"
proof -
  from assms(1) obtain st where st: "task_by_id_stream enum rows = Inr st" "tbi = py_dict st"
    by (rule task_by_id_Inr)
  with assms(2) py_dict_subset[of st] have "(k, T) \<in> set st" by auto
  from stream_entry[OF st(1) this] that show thesis by blast
qed

lemma task_by_id_key:
  assumes "task_by_id enum rows = Inr tbi" and "(k, T) \<in> set tbi"
  shows "id' T = k"
proof -
  from assms obtain tid where
    "task_of_group enum (tid, filter (\<lambda>row. row ''task'' = Some tid) rows) = Inr (k, T)"
    by (rule task_by_id_entry)
  then show ?thesis by (rule task_of_group_Inr) simp
qed

lemma task_by_id_lists:
  assumes "set_order enum" and "task_by_id enum rows = Inr tbi" and "(k, T) \<in> set tbi"
  shows "distinct (blocks T)" and "distinct (is_branch_of T)"
    and "[] \<notin> set (blocks T)" and "[] \<notin> set (is_branch_of T)"
proof -
  from assms(2,3) obtain tid where
    "task_of_group enum (tid, filter (\<lambda>row. row ''task'' = Some tid) rows) = Inr (k, T)"
    by (rule task_by_id_entry)
  then obtain rs where b: "blocks T = enum (referenced ''blocks'' rs)"
    and i: "is_branch_of T = enum (referenced ''is_branch_of'' rs)"
    by (rule task_of_group_Inr) simp
  from assms(1) have e: "\<And>xs. set (enum xs) = set xs" "\<And>xs. distinct (enum xs)"
    by (simp_all add: set_order_def)
  show "distinct (blocks T)" "distinct (is_branch_of T)"
    by (simp_all add: b i e)
  show "[] \<notin> set (blocks T)" "[] \<notin> set (is_branch_of T)"
    by (simp_all add: b i e referenced_nonempty)
qed

lemma task_by_id_values_distinct:
  assumes "task_by_id enum rows = Inr tbi"
  shows "distinct (map id' (map snd tbi))"
proof -
  have "map id' (map snd tbi) = map fst tbi"
    unfolding map_map comp_def
    by (rule map_cong[OF refl]) (use task_by_id_key[OF assms] in auto)
  then show ?thesis using task_by_id_distinct[OF assms] by (simp only:)
qed

section \<open>Edges\<close>

lemma length_map_filter:
  "length (List.map_filter f xs) = length (filter (\<lambda>x. f x \<noteq> None) xs)"
  by (induction xs) (auto simp: List.map_filter_simps split: option.splits)

lemma length_concat_map_filter:
  "length (concat (map (\<lambda>t. List.map_filter (f t) (g t)) ts)) =
   length (concat (map (\<lambda>t. map (h t) (filter (\<lambda>d. f t d \<noteq> None) (g t))) ts))"
  by (induction ts) (simp_all add: length_map_filter)

lemma length_draw_edges: "length (draw_edges tbi twb) = length (emitted_pairs tbi twb)"
  unfolding draw_edges_def emitted_pairs_def by (rule length_concat_map_filter)

lemma distinct_pairs:
  "distinct (map id' ts) \<Longrightarrow> \<forall>t\<in>set ts. distinct (blocks t) \<Longrightarrow>
   distinct (concat (map (\<lambda>t. map (\<lambda>d. (id' t, d)) (filter (P t) (blocks t))) ts))"
proof (induction ts)
  case Nil
  then show ?case by simp
next
  case (Cons t ts)
  have "distinct (map (\<lambda>d. (id' t, d)) (filter (P t) (blocks t)))"
    using Cons.prems by (simp add: distinct_map inj_on_def)
  moreover have "set (map (\<lambda>d. (id' t, d)) (filter (P t) (blocks t)))
      \<inter> set (concat (map (\<lambda>t. map (\<lambda>d. (id' t, d)) (filter (P t) (blocks t))) ts)) = {}"
    using Cons.prems by auto
  ultimately show ?case using Cons by simp
qed

text \<open>
  C8. With \<^verbatim>\<open>list(set(_))\<close> iterating each element once, the \<^verbatim>\<open>blocks\<close> and
  \<^verbatim>\<open>is_branch_of\<close> lists of every normalized Task have no duplicates, however often the rows
  repeat an edge; so the iterations of \<^verbatim>\<open>draw_edges\<close> that add an edge belong to pairwise
  different (T, D) pairs, and each adds one edge.
\<close>

theorem no_duplicate_edges:
  assumes "set_order enum" and "task_by_id enum rows = Inr tbi"
  shows "(\<forall>T\<in>snd ` set tbi. distinct (blocks T) \<and> distinct (is_branch_of T)) \<and>
         distinct (emitted_pairs tbi twb) \<and>
         length (draw_edges tbi twb) = length (emitted_pairs tbi twb)"
proof -
  have d: "\<forall>T\<in>snd ` set tbi. distinct (blocks T) \<and> distinct (is_branch_of T)"
    using task_by_id_lists(1,2)[OF assms] by auto
  then have "\<forall>t\<in>set (map snd tbi). distinct (blocks t)" by simp
  from distinct_pairs[OF task_by_id_values_distinct[OF assms(2)] this]
  have "distinct (emitted_pairs tbi twb)" unfolding emitted_pairs_def .
  with d length_draw_edges show ?thesis by blast
qed

theorem no_duplicate_edges_witness:
  "set_order remdups \<and> task_by_id remdups roadmap_rows = Inr roadmap_tasks \<and>
   list_all (\<lambda>T. distinct (blocks T) \<and> distinct (is_branch_of T)) (map snd roadmap_tasks) \<and>
   distinct (emitted_pairs roadmap_tasks roadmap_compound) \<and>
   length (draw_edges roadmap_tasks roadmap_compound) = 2"
proof -
  have h1: "set_order remdups" by (simp add: set_order_def)
  have h2: "task_by_id remdups roadmap_rows = Inr roadmap_tasks" by code_simp
  have n: "length (emitted_pairs roadmap_tasks roadmap_compound) = 2" by code_simp
  note t = no_duplicate_edges[OF h1 h2, of roadmap_compound]
  from t have a: "list_all (\<lambda>T. distinct (blocks T) \<and> distinct (is_branch_of T))
                    (map snd roadmap_tasks)"
    by (simp add: list_all_iff)
  from t have b: "distinct (emitted_pairs roadmap_tasks roadmap_compound)" by simp
  from t n have c: "length (draw_edges roadmap_tasks roadmap_compound) = 2" by simp
  from h1 h2 a b c show ?thesis by (intro conjI)
qed

lemma edge_for_absent: "map_of tbi d = None \<Longrightarrow> edge_for tbi twb task d = None"
  by (simp add: edge_for_def)

lemma edge_for_spec:
  assumes "map_of tbi d = Some blocked_task"
    and "[] \<notin> set (is_branch_of blocked_task)"
    and "id' task \<in> fst ` set tbi"
  shows "edge_for tbi twb task d = Some (spec_edge twb task d blocked_task)"
proof (cases "is_branch_of blocked_task")
  case Nil
  with assms show ?thesis
    by (simp add: edge_for_def spec_edge_def spec_destination_def spec_source_def)
next
  case (Cons parent others)
  with assms(2) have "parent \<noteq> []" by auto
  with Cons assms(1,3) show ?thesis
    by (simp add: edge_for_def spec_edge_def spec_destination_def spec_source_def)
qed

lemma map_filter_cong:
  "(\<And>x. x \<in> set xs \<Longrightarrow> f x = g x) \<Longrightarrow> List.map_filter f xs = List.map_filter g xs"
proof (induction xs)
  case Nil
  then show ?case by (simp add: List.map_filter_simps)
next
  case (Cons a xs)
  have "f a = g a" by (rule Cons.prems) simp
  moreover have "List.map_filter f xs = List.map_filter g xs"
    by (rule Cons.IH) (simp add: Cons.prems)
  ultimately show ?case by (simp only: List.map_filter_simps)
qed

lemma edge_for_normalized:
  assumes "set_order enum" and "task_by_id enum rows = Inr tbi" and "(k, T) \<in> set tbi"
  shows "edge_for tbi twb T d = map_option (spec_edge twb T d) (map_of tbi d)"
proof (cases "map_of tbi d")
  case None
  then show ?thesis by (simp add: edge_for_absent)
next
  case (Some blocked_task)
  then have "(d, blocked_task) \<in> set tbi" by (rule map_of_SomeD)
  from task_by_id_lists(4)[OF assms(1,2) this]
  have n: "[] \<notin> set (is_branch_of blocked_task)" .
  have "id' T \<in> fst ` set tbi"
    using task_by_id_key[OF assms(2,3)] assms(3) by force
  from edge_for_spec[OF Some n this] Some show ?thesis by simp
qed

text \<open>
  C1. On the task map of the normalizer and the compound-task map built from it,
  \<^verbatim>\<open>draw_edges\<close> adds, for every task T and every id D of its \<^verbatim>\<open>blocks\<close> that the task map
  holds, exactly the edge of the anchor rules, and nothing for the other ids: the
  destination is the sub-row anchor of D in the node of its parent when D is a branch, else
  the \<^verbatim>\<open>xor\<close> anchor of D when D is a compound-task key, else the boundary of D, from the
  west; the source is the \<^verbatim>\<open>title\<close> anchor of T when T is a compound-task key, else the
  boundary of T, to the east; and an end at a named anchor has no side parameter.
\<close>

theorem edges_follow_anchor_rules:
  assumes "set_order enum" and "task_by_id enum rows = Inr tbi"
    and "task_with_branches_by_id tbi = Inr twb"
  shows "draw_edges tbi twb =
           concat (map (\<lambda>T. List.map_filter
                               (\<lambda>d. map_option (spec_edge twb T d) (map_of tbi d)) (blocks T))
                       (map snd tbi))"
proof -
  have "map (\<lambda>kT. List.map_filter (edge_for tbi twb (snd kT)) (blocks (snd kT))) tbi =
        map (\<lambda>kT. List.map_filter
                     (\<lambda>d. map_option (spec_edge twb (snd kT) d) (map_of tbi d)) (blocks (snd kT))) tbi"
  proof (rule map_cong[OF refl])
    fix kT assume "kT \<in> set tbi"
    then have "(fst kT, snd kT) \<in> set tbi" by simp
    from edge_for_normalized[OF assms(1,2) this]
    show "List.map_filter (edge_for tbi twb (snd kT)) (blocks (snd kT)) =
          List.map_filter (\<lambda>d. map_option (spec_edge twb (snd kT) d) (map_of tbi d)) (blocks (snd kT))"
      by (intro map_filter_cong) simp
  qed
  then show ?thesis unfolding draw_edges_def map_map comp_def
    by (rule arg_cong[where f = concat])
qed

theorem edges_follow_anchor_rules_witness:
  "set_order remdups \<and> task_by_id remdups roadmap_rows = Inr roadmap_tasks \<and>
   task_with_branches_by_id roadmap_tasks = Inr roadmap_compound \<and>
   draw_edges roadmap_tasks roadmap_compound =
     [\<lparr>tail_name = ''ex_Q'', head_name = ''ex_P:ex_X:w'', color = ''#4B5D6C'',
       penwidth = ''2.5'', headport = None, tailport = Some ''e''\<rparr>,
      \<lparr>tail_name = ''ex_Q'', head_name = ''ex_P:xor:w'', color = ''#4B5D6C'',
       penwidth = ''2.5'', headport = None, tailport = Some ''e''\<rparr>]"
proof -
  have h1: "set_order remdups" by (simp add: set_order_def)
  have h2: "task_by_id remdups roadmap_rows = Inr roadmap_tasks" by code_simp
  have h3: "task_with_branches_by_id roadmap_tasks = Inr roadmap_compound" by code_simp
  have v: "concat (map (\<lambda>T. List.map_filter
                               (\<lambda>d. map_option (spec_edge roadmap_compound T d) (map_of roadmap_tasks d)) (blocks T))
                       (map snd roadmap_tasks)) =
     [\<lparr>tail_name = ''ex_Q'', head_name = ''ex_P:ex_X:w'', color = ''#4B5D6C'',
       penwidth = ''2.5'', headport = None, tailport = Some ''e''\<rparr>,
      \<lparr>tail_name = ''ex_Q'', head_name = ''ex_P:xor:w'', color = ''#4B5D6C'',
       penwidth = ''2.5'', headport = None, tailport = Some ''e''\<rparr>]"
    by code_simp
  show ?thesis using h1 h2 h3 v edges_follow_anchor_rules[OF h1 h2 h3] by simp
qed

section \<open>The compound-task map\<close>

lemma branch_rows_set:
  "set (branch_rows tbi) = {(p, T). T \<in> snd ` set tbi \<and> p \<in> set (is_branch_of T)}"
  by (auto simp: branch_rows_def)

lemma filter_eq_distinct:
  "distinct xs \<Longrightarrow> filter (\<lambda>p. p = X) xs = (if X \<in> set xs then [X] else [])"
  by (induction xs) auto

lemma branch_rows_children:
  "map snd (filter (\<lambda>pc. fst pc = X) (branch_rows tbi)) =
   concat (map (\<lambda>T. map (\<lambda>p. T) (filter (\<lambda>p. p = X) (is_branch_of T))) (map snd tbi))"
  unfolding branch_rows_def
  by (induction tbi) (simp_all add: filter_map comp_def)

lemma children_distinct:
  assumes "\<forall>T\<in>set ts. distinct (is_branch_of T)"
  shows "concat (map (\<lambda>T. map (\<lambda>p. T) (filter (\<lambda>p. p = X) (is_branch_of T))) ts) =
         filter (\<lambda>T. X \<in> set (is_branch_of T)) ts"
  using assms by (induction ts) (simp_all add: filter_eq_distinct)

lemma compound_groups:
  assumes "task_with_branches_by_id tbi = Inr twb"
  shows "list_all2 (\<lambda>g kv. fst kv = fst g \<and>
            (\<exists>parent. map_of tbi (fst g) = Some parent \<and>
                       snd kv = with_branches parent (map snd (snd g))))
           (groupby fst (sort_key fst (branch_rows tbi))) twb"
proof -
  let ?G = "groupby fst (sort_key fst (branch_rows tbi))"
  let ?h = "\<lambda>(parent_id, children).
                case map_of tbi parent_id of
                  None \<Rightarrow> Inl KeyError
                | Some parent \<Rightarrow> Inr (parent_id, with_branches parent (map snd children))"
  from assms obtain kvs where c: "collect (map ?h ?G) = Inr kvs" and t: "twb = py_dict kvs"
    by (auto simp: task_with_branches_by_id_def split: sum.splits)
  have "list_all2 (\<lambda>g kv. ?h g = Inr kv) ?G kvs"
    using collect_map_Inr[OF c] .
  then have r: "list_all2 (\<lambda>g kv. fst kv = fst g \<and>
            (\<exists>parent. map_of tbi (fst g) = Some parent \<and>
                       snd kv = with_branches parent (map snd (snd g)))) ?G kvs"
    by (rule list_all2_mono) (auto split: option.splits)
  then have "list_all2 (\<lambda>g kv. fst g = fst kv) ?G kvs"
    by (rule list_all2_mono) simp
  then have "map fst ?G = map fst kvs"
    by (simp add: list_all2_conv_all_nth list_eq_iff_nth_eq)
  then have "distinct (map fst kvs)"
    using groupby_sort_key(1)[of fst "branch_rows tbi"] by simp
  then have "twb = kvs" using t by (simp add: py_dict_id)
  with r show ?thesis by simp
qed

lemma list_all2_left_mem:
  "list_all2 P xs ys \<Longrightarrow> x \<in> set xs \<Longrightarrow> \<exists>y\<in>set ys. P x y"
  by (induction xs ys rule: list_all2_induct) auto

lemma compound_keys:
  assumes "task_with_branches_by_id tbi = Inr twb"
  shows "fst ` set twb = {p. \<exists>T\<in>snd ` set tbi. p \<in> set (is_branch_of T)}"
proof -
  let ?G = "groupby fst (sort_key fst (branch_rows tbi))"
  have "list_all2 (\<lambda>g kv. fst g = fst kv) ?G twb"
    by (rule list_all2_mono[OF compound_groups[OF assms]]) simp
  then have "map fst ?G = map fst twb"
    by (simp add: list_all2_conv_all_nth list_eq_iff_nth_eq)
  then have "fst ` set twb = fst ` set ?G"
    by (metis set_map)
  also have "\<dots> = fst ` set (branch_rows tbi)"
    by (rule groupby_sort_key(2))
  also have "\<dots> = {p. \<exists>T\<in>snd ` set tbi. p \<in> set (is_branch_of T)}"
    by (force simp: branch_rows_set)
  finally show ?thesis .
qed

lemma compound_entry:
  assumes "task_with_branches_by_id tbi = Inr twb" and "(X, e) \<in> set twb"
  obtains parent where "map_of tbi X = Some parent"
    "e = with_branches parent (map snd (filter (\<lambda>pc. fst pc = X) (branch_rows tbi)))"
    "filter (\<lambda>pc. fst pc = X) (branch_rows tbi) \<noteq> []"
proof -
  from list_all2_right_mem[OF compound_groups[OF assms(1)] assms(2)]
  obtain g parent where g: "g \<in> set (groupby fst (sort_key fst (branch_rows tbi)))"
    and k: "X = fst g" and p: "map_of tbi (fst g) = Some parent"
    and e: "e = with_branches parent (map snd (snd g))"
    by auto
  from g have "(fst g, snd g) \<in> set (groupby fst (sort_key fst (branch_rows tbi)))" by simp
  from groupby_sort_key(3)[OF this]
  have a: "snd g = filter (\<lambda>pc. fst pc = fst g) (branch_rows tbi)" and b: "snd g \<noteq> []"
    by blast+
  from b have "filter (\<lambda>pc. fst pc = fst g) (branch_rows tbi) \<noteq> []"
    by (subst a[symmetric])
  with that[of parent] p e k a show thesis by simp
qed

lemma branches_with_branches [simp]: "branches (with_branches parent children) = children"
  by (simp add: with_branches_def)

lemma children_set:
  "set (map snd (filter (\<lambda>pc. fst pc = X) (branch_rows tbi))) =
   {T \<in> snd ` set tbi. X \<in> set (is_branch_of T)}"
  unfolding branch_rows_children by (induction tbi) auto

text \<open>
  C3. When the compound-task map is built, it has an entry with key X if and only if some
  Task of the task map has X in its \<^verbatim>\<open>is_branch_of\<close>; the \<^verbatim>\<open>branches\<close> of that entry are
  exactly those Tasks, and, where the \<^verbatim>\<open>is_branch_of\<close> lists are free of duplicates as the
  normalizer makes them, each of them once, in the order of the task map.
\<close>

theorem compound_iff_named_as_parent:
  assumes "task_with_branches_by_id tbi = Inr twb"
  shows "(X \<in> fst ` set twb \<longleftrightarrow> (\<exists>T\<in>snd ` set tbi. X \<in> set (is_branch_of T))) \<and>
         (\<forall>e. (X, e) \<in> set twb \<longrightarrow>
            set (branches e) = {T \<in> snd ` set tbi. X \<in> set (is_branch_of T)} \<and>
            ((\<forall>T\<in>snd ` set tbi. distinct (is_branch_of T)) \<longrightarrow>
               branches e = filter (\<lambda>T. X \<in> set (is_branch_of T)) (map snd tbi)))"
proof (intro conjI allI impI)
  show "X \<in> fst ` set twb \<longleftrightarrow> (\<exists>T\<in>snd ` set tbi. X \<in> set (is_branch_of T))"
    by (simp add: compound_keys[OF assms])
next
  fix e assume m: "(X, e) \<in> set twb"
  obtain parent where
    "e = with_branches parent (map snd (filter (\<lambda>pc. fst pc = X) (branch_rows tbi)))"
    by (rule compound_entry[OF assms m])
  then have b: "branches e = map snd (filter (\<lambda>pc. fst pc = X) (branch_rows tbi))"
    by simp
  show "set (branches e) = {T \<in> snd ` set tbi. X \<in> set (is_branch_of T)}"
    unfolding b by (rule children_set)
  assume "\<forall>T\<in>snd ` set tbi. distinct (is_branch_of T)"
  then have "\<forall>T\<in>set (map snd tbi). distinct (is_branch_of T)" by simp
  from children_distinct[OF this]
  show "branches e = filter (\<lambda>T. X \<in> set (is_branch_of T)) (map snd tbi)"
    unfolding b branch_rows_children .
qed

theorem compound_iff_named_as_parent_witness:
  "task_with_branches_by_id roadmap_tasks = Inr roadmap_compound \<and>
   list_all (\<lambda>T. distinct (is_branch_of T)) (map snd roadmap_tasks) \<and>
   (''ex_P'' \<in> fst ` set roadmap_compound \<longleftrightarrow>
      (\<exists>T\<in>snd ` set roadmap_tasks. ''ex_P'' \<in> set (is_branch_of T))) \<and>
   (''ex_P'', snd (roadmap_compound ! 0)) \<in> set roadmap_compound \<and>
   set (branches (snd (roadmap_compound ! 0))) =
     {T \<in> snd ` set roadmap_tasks. ''ex_P'' \<in> set (is_branch_of T)} \<and>
   branches (snd (roadmap_compound ! 0)) =
     filter (\<lambda>T. ''ex_P'' \<in> set (is_branch_of T)) (map snd roadmap_tasks)"
proof -
  have h: "task_with_branches_by_id roadmap_tasks = Inr roadmap_compound" by code_simp
  have d: "list_all (\<lambda>T. distinct (is_branch_of T)) (map snd roadmap_tasks)"
    by (simp add: roadmap_tasks_def)
  then have d': "\<forall>T\<in>snd ` set roadmap_tasks. distinct (is_branch_of T)"
    by (simp add: list_all_iff)
  have m: "(''ex_P'', snd (roadmap_compound ! 0)) \<in> set roadmap_compound"
    by (simp add: roadmap_compound_def)
  note c = compound_iff_named_as_parent[OF h, of "''ex_P''"]
  from c have c1: "''ex_P'' \<in> fst ` set roadmap_compound \<longleftrightarrow>
      (\<exists>T\<in>snd ` set roadmap_tasks. ''ex_P'' \<in> set (is_branch_of T))"
    by (rule conjunct1)
  from conjunct2[OF c] m have c2:
    "set (branches (snd (roadmap_compound ! 0))) =
       {T \<in> snd ` set roadmap_tasks. ''ex_P'' \<in> set (is_branch_of T)} \<and>
     ((\<forall>T\<in>snd ` set roadmap_tasks. distinct (is_branch_of T)) \<longrightarrow>
       branches (snd (roadmap_compound ! 0)) =
         filter (\<lambda>T. ''ex_P'' \<in> set (is_branch_of T)) (map snd roadmap_tasks))"
    by blast
  from c2 d' have c3: "branches (snd (roadmap_compound ! 0)) =
         filter (\<lambda>T. ''ex_P'' \<in> set (is_branch_of T)) (map snd roadmap_tasks)"
    by blast
  from h d c1 m conjunct1[OF c2] c3 show ?thesis by (intro conjI)
qed

text \<open>
  C10. Every entry of the compound-task map has at least one branch.
\<close>

theorem compound_has_branches:
  assumes "task_with_branches_by_id tbi = Inr twb" and "(X, e) \<in> set twb"
  shows "branches e \<noteq> []"
proof -
  obtain parent where
    "e = with_branches parent (map snd (filter (\<lambda>pc. fst pc = X) (branch_rows tbi)))"
    "filter (\<lambda>pc. fst pc = X) (branch_rows tbi) \<noteq> []"
    by (rule compound_entry[OF assms])
  then show ?thesis by simp
qed

theorem compound_has_branches_witness:
  "task_with_branches_by_id roadmap_tasks = Inr roadmap_compound \<and>
   roadmap_compound ! 1 \<in> set roadmap_compound \<and>
   branches (snd (roadmap_compound ! 1)) \<noteq> []"
proof -
  have h: "task_with_branches_by_id roadmap_tasks = Inr roadmap_compound" by code_simp
  have m: "(fst (roadmap_compound ! 1), snd (roadmap_compound ! 1)) \<in> set roadmap_compound"
    by (simp add: roadmap_compound_def)
  show ?thesis using h m compound_has_branches[OF h m] by simp
qed

text \<open>
  C6. When a Task of the task map names in \<^verbatim>\<open>is_branch_of\<close> a parent id that the task map
  does not hold, building the compound-task map ends with \<^verbatim>\<open>KeyError\<close>.
\<close>

theorem dangling_parent_fails:
  assumes "(k, T) \<in> set tbi" and "P \<in> set (is_branch_of T)" and "map_of tbi P = None"
  shows "task_with_branches_by_id tbi = Inl KeyError"
proof -
  let ?G = "groupby fst (sort_key fst (branch_rows tbi))"
  let ?h = "\<lambda>(parent_id, children).
                case map_of tbi parent_id of
                  None \<Rightarrow> Inl KeyError
                | Some parent \<Rightarrow> Inr (parent_id, with_branches parent (map snd children))"
  from assms(1,2) have "(P, T) \<in> set (branch_rows tbi)"
    by (force simp: branch_rows_set)
  then have "P \<in> fst ` set ?G"
    unfolding groupby_sort_key(2) by force
  then obtain ch where "(P, ch) \<in> set ?G" by auto
  then have "?h (P, ch) \<in> ?h ` set ?G" by (rule imageI)
  moreover have "?h (P, ch) = Inl KeyError" using assms(3) by simp
  ultimately have "Inl KeyError \<in> set (map ?h ?G)" by (simp only: set_map)
  from collect_fails[OF this] obtain e' where e: "collect (map ?h ?G) = Inl e'" by blast
  from collect_Inl_mem[OF this] have "e' = KeyError"
    by (auto split: option.splits)
  with e show ?thesis by (simp add: task_with_branches_by_id_def)
qed

theorem dangling_parent_fails_witness:
  "dangling_tasks ! 0 \<in> set dangling_tasks \<and>
   ''ex_P'' \<in> set (is_branch_of (snd (dangling_tasks ! 0))) \<and>
   map_of dangling_tasks ''ex_P'' = None \<and>
   task_with_branches_by_id dangling_tasks = Inl KeyError"
proof -
  have h1: "(fst (dangling_tasks ! 0), snd (dangling_tasks ! 0)) \<in> set dangling_tasks"
    by (simp add: dangling_tasks_def)
  have h2: "''ex_P'' \<in> set (is_branch_of (snd (dangling_tasks ! 0)))"
    by (simp add: dangling_tasks_def)
  have h3: "map_of dangling_tasks ''ex_P'' = None"
    by (simp add: dangling_tasks_def)
  show ?thesis using h1 h2 h3 dangling_parent_fails[OF h1 h2 h3] by simp
qed

lemma edge_for_present:
  assumes "map_of tbi d \<noteq> None" and "id' task \<in> fst ` set tbi"
  shows "edge_for tbi twb task d \<noteq> None"
proof -
  from assms(1) obtain y where "map_of tbi d = Some y" by auto
  with assms(2) show ?thesis
    by (simp add: edge_for_def Let_def case_prod_beta)
qed

lemma map_filter_filter:
  "(\<And>x. \<not> P x \<Longrightarrow> f x = None) \<Longrightarrow>
   List.map_filter f (filter P xs) = List.map_filter f xs"
proof (induction xs)
  case Nil
  then show ?case by simp
next
  case (Cons a xs)
  have ih: "List.map_filter f (filter P xs) = List.map_filter f xs"
    by (rule Cons.IH) (rule Cons.prems)
  show ?case
  proof (cases "P a")
    case True
    then have "filter P (a # xs) = a # filter P xs" by simp
    then show ?thesis by (simp only: List.map_filter_simps ih)
  next
    case False
    then have n: "f a = None" by (rule Cons.prems)
    from False have "filter P (a # xs) = filter P xs" by simp
    then show ?thesis by (simp only: List.map_filter_simps ih n option.case)
  qed
qed

lemma show_graph_Inr:
  assumes "task_by_id enum rows = Inr tbi" and "task_with_branches_by_id tbi = Inr twb"
  shows "show_graph enum wrap rows =
           Inr \<lparr>nodes = draw_nodes_with_branches wrap twb
                         @ draw_nodes_without_branches wrap tbi twb,
                edges = draw_edges tbi twb\<rparr>"
  using assms by (simp add: show_graph_def)

text \<open>
  C5. Once both maps are built the render call returns a graph, whatever the \<^verbatim>\<open>blocks\<close>
  lists hold. An id D that the task map does not hold adds no edge, for any task T;
  the edges drawn are those of the loop run over the remaining ids only, and every pair
  (T, D) with D in the task map does add its edge.
\<close>

theorem absent_target_is_skipped:
  assumes "task_by_id enum rows = Inr tbi" and "task_with_branches_by_id tbi = Inr twb"
  shows "show_graph enum wrap rows =
           Inr \<lparr>nodes = draw_nodes_with_branches wrap twb
                         @ draw_nodes_without_branches wrap tbi twb,
                edges = draw_edges tbi twb\<rparr> \<and>
         (\<forall>T D. map_of tbi D = None \<longrightarrow> edge_for tbi twb T D = None) \<and>
         draw_edges tbi twb =
           concat (map (\<lambda>T. List.map_filter (edge_for tbi twb T)
                               (filter (\<lambda>D. map_of tbi D \<noteq> None) (blocks T)))
                       (map snd tbi)) \<and>
         (\<forall>T\<in>snd ` set tbi. \<forall>D\<in>set (blocks T).
            map_of tbi D \<noteq> None \<longrightarrow> edge_for tbi twb T D \<noteq> None)"
proof (intro conjI ballI allI impI)
  show "show_graph enum wrap rows =
           Inr \<lparr>nodes = draw_nodes_with_branches wrap twb
                         @ draw_nodes_without_branches wrap tbi twb,
                edges = draw_edges tbi twb\<rparr>"
    by (rule show_graph_Inr[OF assms])
next
  fix T D assume "map_of tbi D = None"
  then show "edge_for tbi twb T D = None" by (rule edge_for_absent)
next
  have "\<And>T. List.map_filter (edge_for tbi twb T) (filter (\<lambda>D. map_of tbi D \<noteq> None) (blocks T))
           = List.map_filter (edge_for tbi twb T) (blocks T)"
    by (rule map_filter_filter) (simp add: edge_for_absent)
  then show "draw_edges tbi twb =
           concat (map (\<lambda>T. List.map_filter (edge_for tbi twb T)
                               (filter (\<lambda>D. map_of tbi D \<noteq> None) (blocks T)))
                       (map snd tbi))"
    by (simp only: draw_edges_def)
next
  fix T D assume T: "T \<in> snd ` set tbi" and "D \<in> set (blocks T)" and D: "map_of tbi D \<noteq> None"
  from T obtain k where kT: "(k, T) \<in> set tbi" by auto
  have "id' T \<in> fst ` set tbi"
    using task_by_id_key[OF assms(1) kT] kT by force
  from edge_for_present[OF D this] show "edge_for tbi twb T D \<noteq> None" .
qed

theorem absent_target_is_skipped_witness:
  "task_by_id remdups roadmap_rows = Inr roadmap_tasks \<and>
   task_with_branches_by_id roadmap_tasks = Inr roadmap_compound \<and>
   ''ex_gone'' \<in> set (blocks (snd (roadmap_tasks ! 1))) \<and>
   map_of roadmap_tasks ''ex_gone'' = None \<and>
   edge_for roadmap_tasks roadmap_compound (snd (roadmap_tasks ! 1)) ''ex_gone'' = None \<and>
   snd (roadmap_tasks ! 1) \<in> snd ` set roadmap_tasks \<and>
   ''ex_X'' \<in> set (blocks (snd (roadmap_tasks ! 1))) \<and>
   map_of roadmap_tasks ''ex_X'' \<noteq> None \<and>
   edge_for roadmap_tasks roadmap_compound (snd (roadmap_tasks ! 1)) ''ex_X'' \<noteq> None \<and>
   show_graph remdups one_line roadmap_rows =
     Inr \<lparr>nodes = draw_nodes_with_branches one_line roadmap_compound
                   @ draw_nodes_without_branches one_line roadmap_tasks roadmap_compound,
          edges = draw_edges roadmap_tasks roadmap_compound\<rparr>"
proof -
  have h1: "task_by_id remdups roadmap_rows = Inr roadmap_tasks" by code_simp
  have h2: "task_with_branches_by_id roadmap_tasks = Inr roadmap_compound" by code_simp
  have g: "''ex_gone'' \<in> set (blocks (snd (roadmap_tasks ! 1)))"
    "map_of roadmap_tasks ''ex_gone'' = None"
    by (simp_all add: roadmap_tasks_def)
  have x: "snd (roadmap_tasks ! 1) \<in> snd ` set roadmap_tasks"
    "''ex_X'' \<in> set (blocks (snd (roadmap_tasks ! 1)))"
    "map_of roadmap_tasks ''ex_X'' \<noteq> None"
    by (simp_all add: roadmap_tasks_def)
  note t = absent_target_is_skipped[OF h1 h2, of one_line]
  from t have t1: "show_graph remdups one_line roadmap_rows =
     Inr \<lparr>nodes = draw_nodes_with_branches one_line roadmap_compound
                   @ draw_nodes_without_branches one_line roadmap_tasks roadmap_compound,
          edges = draw_edges roadmap_tasks roadmap_compound\<rparr>"
    by (rule conjunct1)
  from t g(2) have t2:
    "edge_for roadmap_tasks roadmap_compound (snd (roadmap_tasks ! 1)) ''ex_gone'' = None"
    by blast
  from t x have t3:
    "edge_for roadmap_tasks roadmap_compound (snd (roadmap_tasks ! 1)) ''ex_X'' \<noteq> None"
    by blast
  from h1 h2 g x t1 t2 t3 show ?thesis by (intro conjI)
qed

section \<open>Nodes\<close>

lemma compound_node_name [simp]: "name (compound_node wrap e) = id' e"
  by (simp add: compound_node_def Let_def)

lemma compound_node_label [simp]:
  "label (compound_node wrap e) =
     Html_table \<lparr>header = [(''xor'', [CHR 0xE2, CHR 0x8A, CHR 0xBB]),
                            (''title'', ''<b>'' @ wrap_html wrap (title e) ''left'' @ ''</b>'')],
                 table_rows = table_rows_of wrap e,
                 bgcolor = background_color e\<rparr>"
  by (simp add: compound_node_def Let_def)

lemma plain_node_name [simp]: "name (plain_node wrap T) = id' T"
  by (simp add: plain_node_def Let_def)

lemma plain_node_label [simp]:
  "label (plain_node wrap T) = Html_text (''<<b>'' @ wrap_html wrap (title T) ''center'' @ ''</b>>'')"
  by (simp add: plain_node_def Let_def)

lemma table_rows_cells:
  "map (\<lambda>c. (port c, content c)) (table_rows_of wrap e) =
   map (\<lambda>T. (id' T, wrap_html wrap (title T) ''center'')) (branches e)"
  unfolding table_rows_of_def
  by (simp add: list_eq_iff_nth_eq nth_enumerate_eq case_prod_beta)

lemma table_rows_ports: "port ` set (table_rows_of wrap e) = id' ` set (branches e)"
proof -
  have "map port (table_rows_of wrap e) = map id' (branches e)"
    using arg_cong[OF table_rows_cells[of wrap e], of "map fst"] by (simp add: comp_def)
  then show ?thesis by (metis set_map)
qed

lemma compound_entry_id:
  assumes "task_by_id enum rows = Inr tbi" and "task_with_branches_by_id tbi = Inr twb"
    and "(X, e) \<in> set twb"
  shows "id' e = X"
proof -
  obtain parent where p: "map_of tbi X = Some parent"
    and e: "e = with_branches parent (map snd (filter (\<lambda>pc. fst pc = X) (branch_rows tbi)))"
    by (rule compound_entry[OF assms(2,3)])
  from p have "(X, parent) \<in> set tbi" by (rule map_of_SomeD)
  from task_by_id_key[OF assms(1) this] e show ?thesis by (simp add: with_branches_def)
qed

lemma compound_names:
  assumes "task_by_id enum rows = Inr tbi" and "task_with_branches_by_id tbi = Inr twb"
  shows "name ` set (draw_nodes_with_branches wrap twb) = fst ` set twb"
proof -
  have "map name (draw_nodes_with_branches wrap twb) = map fst twb"
    unfolding draw_nodes_with_branches_def map_map
    by (rule map_cong[OF refl]) (use compound_entry_id[OF assms] in \<open>auto simp: case_prod_beta\<close>)
  then show ?thesis by (metis set_map)
qed

lemma plain_names:
  "name ` set (draw_nodes_without_branches wrap tbi twb) =
   id' ` {T \<in> snd ` set tbi. id' T \<notin> fst ` set twb \<and> is_branch_of T = []}"
proof -
  have "map name (draw_nodes_without_branches wrap tbi twb) =
        map id' (filter (\<lambda>task. id' task \<notin> fst ` set twb \<and> is_branch_of task = [])
                        (map snd tbi))"
    by (simp add: draw_nodes_without_branches_def Let_def comp_def)
  then have "name ` set (draw_nodes_without_branches wrap tbi twb) =
        id' ` set (filter (\<lambda>task. id' task \<notin> fst ` set twb \<and> is_branch_of task = [])
                        (map snd tbi))"
    by (metis set_map)
  then show ?thesis by simp
qed

lemma task_by_id_same_id:
  assumes "task_by_id enum rows = Inr tbi"
    and "T \<in> snd ` set tbi" and "T' \<in> snd ` set tbi" and "id' T = id' T'"
  shows "T = T'"
proof -
  from assms(2,3) obtain k k' where k: "(k, T) \<in> set tbi" "(k', T') \<in> set tbi" by auto
  from task_by_id_key[OF assms(1)] k assms(4) have "k = k'" by metis
  with k task_by_id_distinct[OF assms(1)] show ?thesis
    by (metis eq_key_imp_eq_value)
qed

lemma branch_in_parent_node:
  assumes "task_by_id enum rows = Inr tbi" and "task_with_branches_by_id tbi = Inr twb"
    and "T \<in> snd ` set tbi" and "P \<in> set (is_branch_of T)"
  shows "\<exists>n\<in>set (draw_nodes_with_branches wrap twb). name n = P \<and>
           (\<exists>tab c. label n = Html_table tab \<and> c \<in> set (table_rows tab) \<and> port c = id' T)"
proof -
  from assms(3,4) have "P \<in> fst ` set twb"
    unfolding compound_keys[OF assms(2)] by blast
  then obtain e where e: "(P, e) \<in> set twb" by auto
  obtain parent where
    "e = with_branches parent (map snd (filter (\<lambda>pc. fst pc = P) (branch_rows tbi)))"
    by (rule compound_entry[OF assms(2) e])
  then have "set (branches e) = {T \<in> snd ` set tbi. P \<in> set (is_branch_of T)}"
    using children_set[of P tbi] by simp
  with assms(3,4) have "T \<in> set (branches e)" by simp
  then have "id' T \<in> port ` set (table_rows_of wrap e)"
    unfolding table_rows_ports by (rule imageI)
  then obtain c where c: "c \<in> set (table_rows_of wrap e)" "port c = id' T" by auto
  let ?n = "compound_node wrap e"
  have "?n \<in> set (draw_nodes_with_branches wrap twb)"
    unfolding draw_nodes_with_branches_def using e by force
  moreover have "name ?n = P"
    using compound_entry_id[OF assms(1,2) e] by simp
  moreover have "\<exists>tab c. label ?n = Html_table tab \<and> c \<in> set (table_rows tab) \<and> port c = id' T"
  proof (intro exI conjI)
    show "label ?n = Html_table \<lparr>header = [(''xor'', [CHR 0xE2, CHR 0x8A, CHR 0xBB]),
                            (''title'', ''<b>'' @ wrap_html wrap (title e) ''left'' @ ''</b>'')],
                 table_rows = table_rows_of wrap e,
                 bgcolor = background_color e\<rparr>"
      by (rule compound_node_label)
    show "c \<in> set (table_rows \<lparr>header = [(''xor'', [CHR 0xE2, CHR 0x8A, CHR 0xBB]),
                            (''title'', ''<b>'' @ wrap_html wrap (title e) ''left'' @ ''</b>'')],
                 table_rows = table_rows_of wrap e,
                 bgcolor = background_color e\<rparr>)"
      using c(1) by simp
    show "port c = id' T" by (rule c(2))
  qed
  ultimately show ?thesis by blast
qed

text \<open>
  C4, as amended. A task with a non-empty \<^verbatim>\<open>is_branch_of\<close> never gets a plain node, and it
  is a sub-row (a cell whose port is its id) of the compound node of every parent it names.
  It gets no top-level node at all unless it is itself a key of the compound-task map,
  that is, unless some task names it as a parent; in that case its own compound node is
  drawn as well.
\<close>

theorem branch_task_nodes:
  assumes "task_by_id enum rows = Inr tbi" and "task_with_branches_by_id tbi = Inr twb"
    and "T \<in> snd ` set tbi" and "is_branch_of T \<noteq> []"
  shows "id' T \<notin> name ` set (draw_nodes_without_branches wrap tbi twb) \<and>
         (id' T \<in> name ` set (draw_nodes_with_branches wrap twb) \<longleftrightarrow> id' T \<in> fst ` set twb) \<and>
         (\<forall>P\<in>set (is_branch_of T).
            \<exists>n\<in>set (draw_nodes_with_branches wrap twb). name n = P \<and>
              (\<exists>tab c. label n = Html_table tab \<and> c \<in> set (table_rows tab) \<and> port c = id' T))"
proof (intro conjI ballI)
  show "id' T \<notin> name ` set (draw_nodes_without_branches wrap tbi twb)"
  proof
    assume "id' T \<in> name ` set (draw_nodes_without_branches wrap tbi twb)"
    then obtain T' where T': "T' \<in> snd ` set tbi" "is_branch_of T' = []" "id' T = id' T'"
      unfolding plain_names by auto
    from task_by_id_same_id[OF assms(1,3) T'(1,3)] T'(2) assms(4) show False by simp
  qed
next
  show "id' T \<in> name ` set (draw_nodes_with_branches wrap twb) \<longleftrightarrow> id' T \<in> fst ` set twb"
    by (simp only: compound_names[OF assms(1,2)])
next
  fix P assume "P \<in> set (is_branch_of T)"
  from branch_in_parent_node[OF assms(1,2,3) this]
  show "\<exists>n\<in>set (draw_nodes_with_branches wrap twb). name n = P \<and>
              (\<exists>tab c. label n = Html_table tab \<and> c \<in> set (table_rows tab) \<and> port c = id' T)" .
qed

theorem branch_task_nodes_witness:
  "task_by_id remdups roadmap_rows = Inr roadmap_tasks \<and>
   task_with_branches_by_id roadmap_tasks = Inr roadmap_compound \<and>
   snd (roadmap_tasks ! 3) \<in> snd ` set roadmap_tasks \<and>
   is_branch_of (snd (roadmap_tasks ! 3)) = [''ex_X''] \<and>
   id' (snd (roadmap_tasks ! 3)) = ''ex_Y'' \<and>
   ''ex_Y'' \<notin> name ` set (draw_nodes_without_branches one_line roadmap_tasks roadmap_compound) \<and>
   ''ex_Y'' \<notin> name ` set (draw_nodes_with_branches one_line roadmap_compound) \<and>
   (\<exists>n\<in>set (draw_nodes_with_branches one_line roadmap_compound). name n = ''ex_X'' \<and>
      (\<exists>tab c. label n = Html_table tab \<and> c \<in> set (table_rows tab) \<and> port c = ''ex_Y''))"
proof -
  have h1: "task_by_id remdups roadmap_rows = Inr roadmap_tasks" by code_simp
  have h2: "task_with_branches_by_id roadmap_tasks = Inr roadmap_compound" by code_simp
  have h3: "snd (roadmap_tasks ! 3) \<in> snd ` set roadmap_tasks"
    by (simp add: roadmap_tasks_def)
  have b: "is_branch_of (snd (roadmap_tasks ! 3)) = [''ex_X'']"
    and i: "id' (snd (roadmap_tasks ! 3)) = ''ex_Y''"
    by (simp_all add: roadmap_tasks_def)
  from b have h4: "is_branch_of (snd (roadmap_tasks ! 3)) \<noteq> []" by simp
  have k: "''ex_Y'' \<notin> fst ` set roadmap_compound" by (simp add: roadmap_compound_def)
  note t = branch_task_nodes[OF h1 h2 h3 h4, of one_line, unfolded i b]
  from t have t1:
    "''ex_Y'' \<notin> name ` set (draw_nodes_without_branches one_line roadmap_tasks roadmap_compound)"
    by (rule conjunct1)
  from t k have t2: "''ex_Y'' \<notin> name ` set (draw_nodes_with_branches one_line roadmap_compound)"
    by blast
  from t have t3: "\<exists>n\<in>set (draw_nodes_with_branches one_line roadmap_compound). name n = ''ex_X'' \<and>
      (\<exists>tab c. label n = Html_table tab \<and> c \<in> set (table_rows tab) \<and> port c = ''ex_Y'')"
    by simp
  from h1 h2 h3 b i t1 t2 t3 show ?thesis by (intro conjI)
qed

theorem branch_with_own_node_counterexample:
  "task_by_id remdups roadmap_rows = Inr roadmap_tasks \<and>
   id' (snd (roadmap_tasks ! 2)) = ''ex_X'' \<and>
   is_branch_of (snd (roadmap_tasks ! 2)) = [''ex_P''] \<and>
   map_sum id (\<lambda>g. map name (nodes g)) (show_graph remdups one_line roadmap_rows) =
     Inr [''ex_P'', ''ex_X'', ''ex_Q'']"
  by code_simp

lemma sub_rows_compound:
  "sub_rows (compound_node wrap e) =
   map (\<lambda>T. (id' T, wrap_html wrap (title T) ''center'')) (branches e)"
  by (simp add: sub_rows_def table_rows_cells)

lemma compound_sub_rows:
  assumes "set_order enum" and "task_by_id enum rows = Inr tbi"
    and "task_with_branches_by_id tbi = Inr twb"
    and "n \<in> set (draw_nodes_with_branches wrap twb)"
  shows "sub_rows n = map (\<lambda>T. (id' T, wrap_html wrap (title T) ''center''))
                          (filter (\<lambda>T. name n \<in> set (is_branch_of T)) (map snd tbi))"
proof -
  from assms(4) obtain X e where e: "(X, e) \<in> set twb" and n: "n = compound_node wrap e"
    by (auto simp: draw_nodes_with_branches_def)
  have ie: "id' e = X" by (rule compound_entry_id[OF assms(2,3) e])
  obtain parent where
    "e = with_branches parent (map snd (filter (\<lambda>pc. fst pc = X) (branch_rows tbi)))"
    by (rule compound_entry[OF assms(3) e])
  then have b: "branches e = map snd (filter (\<lambda>pc. fst pc = X) (branch_rows tbi))"
    by simp
  have "\<forall>T\<in>set (map snd tbi). distinct (is_branch_of T)"
    using task_by_id_lists(2)[OF assms(1,2)] by auto
  from children_distinct[OF this]
  have "branches e = filter (\<lambda>T. X \<in> set (is_branch_of T)) (map snd tbi)"
    unfolding b branch_rows_children .
  then show ?thesis by (simp add: n sub_rows_compound ie)
qed

section \<open>Branch labels\<close>

lemma remdups_adj_map_dropWhile:
  "remdups_adj (a # map f xs) = a # remdups_adj (map f (dropWhile (\<lambda>y. f y = a) xs))"
  by (induction xs) auto

lemma groupby_keys_list: "map fst (groupby f xs) = remdups_adj (map f xs)"
proof (induction f xs rule: groupby.induct)
  case (1 key)
  then show ?case by simp
next
  case (2 key x xs)
  then show ?case by (simp add: remdups_adj_map_dropWhile)
qed

lemma filter_takeWhile_same: "filter P (takeWhile P xs) = takeWhile P xs"
  by (induction xs) simp_all

lemma filter_none: "(\<And>y. y \<in> set ys \<Longrightarrow> \<not> P y) \<Longrightarrow> filter P ys = []"
  by (induction ys) simp_all

lemma filter_split_run:
  assumes "\<And>y. y \<in> set (dropWhile P xs) \<Longrightarrow> \<not> P y"
  shows "filter P xs = takeWhile P xs"
proof -
  have e: "filter P (dropWhile P xs) = []" by (rule filter_none) (rule assms)
  have "filter P (takeWhile P xs @ dropWhile P xs) = takeWhile P xs @ []"
    unfolding filter_append filter_takeWhile_same e ..
  then show ?thesis by (simp only: takeWhile_dropWhile_id append_Nil2)
qed

lemma filter_skip_run:
  assumes "\<And>y. P y \<Longrightarrow> \<not> Q y"
  shows "filter Q xs = filter Q (dropWhile P xs)"
proof -
  have "\<And>y. y \<in> set (takeWhile P xs) \<Longrightarrow> \<not> Q y"
    using assms by (blast dest: set_takeWhileD)
  then have e: "filter Q (takeWhile P xs) = []" by (rule filter_none)
  have "filter Q (takeWhile P xs @ dropWhile P xs) = [] @ filter Q (dropWhile P xs)"
    unfolding filter_append e ..
  then show ?thesis by (simp only: takeWhile_dropWhile_id append_Nil)
qed

lemma groupby_distinct_filter:
  assumes "distinct (map fst (groupby f xs))" and "(k, g) \<in> set (groupby f xs)"
  shows "g = filter (\<lambda>x. f x = k) xs"
  using assms
proof (induction f xs rule: groupby.induct)
  case (1 key)
  then show ?case by simp
next
  case (2 key x xs)
  let ?P = "\<lambda>y. key y = key x"
  let ?d = "dropWhile ?P xs"
  have g_eq: "groupby key (x # xs) = (key x, x # takeWhile ?P xs) # groupby key ?d"
    by (rule groupby.simps(2))
  from "2.prems"(1) have notin: "key x \<notin> fst ` set (groupby key ?d)"
    and dist: "distinct (map fst (groupby key ?d))"
    unfolding g_eq by simp_all
  have dr: "\<not> ?P y" if "y \<in> set ?d" for y
  proof
    assume "key y = key x"
    with that have "key x \<in> key ` set ?d" by (metis imageI)
    with notin show False by (simp add: groupby_keys)
  qed
  from "2.prems"(2) have "(k, g) = (key x, x # takeWhile ?P xs) \<or> (k, g) \<in> set (groupby key ?d)"
    unfolding g_eq by simp
  then show ?case
  proof
    assume "(k, g) = (key x, x # takeWhile ?P xs)"
    then have k: "k = key x" and g: "g = x # takeWhile ?P xs" by simp_all
    have "filter ?P xs = takeWhile ?P xs" by (rule filter_split_run) (rule dr)
    then have "filter ?P (x # xs) = x # takeWhile ?P xs" by simp
    then show ?thesis unfolding k g by (rule sym)
  next
    assume m: "(k, g) \<in> set (groupby key ?d)"
    then have "k \<in> fst ` set (groupby key ?d)" by force
    with notin have ne: "key x \<noteq> k" by blast
    from "2.IH"[OF dist m] have g: "g = filter (\<lambda>y. key y = k) ?d" .
    have "filter (\<lambda>y. key y = k) xs = filter (\<lambda>y. key y = k) ?d"
      by (rule filter_skip_run) (use ne in simp)
    with ne have "filter (\<lambda>y. key y = k) (x # xs) = filter (\<lambda>y. key y = k) ?d" by simp
    then show ?thesis unfolding g by (rule sym)
  qed
qed

lemma those_map_total:
  assumes "\<forall>x\<in>set xs. g x \<noteq> None"
  shows "\<exists>ys. those (map g xs) = Some ys"
  using assms
proof (induction xs)
  case Nil
  then show ?case by simp
next
  case (Cons x xs)
  from Cons.prems obtain y where y: "g x = Some y" by auto
  from Cons.prems have "\<forall>x\<in>set xs. g x \<noteq> None" by simp
  with Cons.IH obtain ys where "those (map g xs) = Some ys" by blast
  with y have "those (map g (x # xs)) = Some (y # ys)" by simp
  then show ?case by (rule exI)
qed

lemma collect_map_total:
  assumes "\<forall>x\<in>set xs. \<exists>y. h x = Inr y"
  shows "\<exists>ys. collect (map h xs) = Inr ys"
  using assms
proof (induction xs)
  case Nil
  then show ?case by simp
next
  case (Cons x xs)
  from Cons.prems obtain y where y: "h x = Inr y" by auto
  from Cons.prems have "\<forall>x\<in>set xs. \<exists>y. h x = Inr y" by simp
  with Cons.IH obtain ys where "collect (map h xs) = Inr ys" by blast
  with y have "collect (map h (x # xs)) = Inr (y # ys)" by simp
  then show ?case by (rule exI)
qed

lemma branch_labels_exact:
  assumes wf: "\<forall>row\<in>set brows. row ''task'' \<noteq> None \<and> row ''branch'' \<noteq> None \<and> row ''title'' \<noteq> None"
    and col: "collated ''task'' brows"
  shows "\<exists>labels. find_branches_by_task brows = Inr labels \<and>
           map fst labels = remdups_adj (List.map_filter (\<lambda>row. row ''task'') brows) \<and>
           (\<forall>(root, ls)\<in>set labels.
              list_all2 (\<lambda>row l. \<exists>b t. row ''branch'' = Some b \<and> row ''title'' = Some t \<and>
                                    l = (as_graph_id b, format_record_label t))
                        (filter (\<lambda>row. row ''task'' = Some root) brows) ls)"
proof -
  let ?h = "\<lambda>(k, branch).
                               case (branch ''branch'', branch ''title'') of
                                 (Some b, Some t) \<Rightarrow> Inr (as_graph_id b, format_record_label t)
                               | _ \<Rightarrow> Inl KeyError"
  let ?H = "\<lambda>(root_task, group).
                     case collect (map ?h group) of
                       Inl e \<Rightarrow> Inl e
                     | Inr labels \<Rightarrow> Inr (root_task, labels)"
  let ?R = "\<lambda>row l. \<exists>b t. row ''branch'' = Some b \<and> row ''title'' = Some t \<and>
                                    l = (as_graph_id b, format_record_label t)"
  have "\<forall>row\<in>set brows. map_option (\<lambda>k. (k, row)) (row ''task'') \<noteq> None"
    using wf by simp
  from those_map_total[OF this] obtain krs where
    "those (map (\<lambda>row. map_option (\<lambda>k. (k, row)) (row ''task'')) brows) = Some krs" ..
  then have k: "keyed ''task'' brows = Inr krs" by (simp add: keyed_def)
  note rel = keyed_Inr[OF k]
  have fields: "snd kr ''branch'' \<noteq> None \<and> snd kr ''title'' \<noteq> None" if "kr \<in> set krs" for kr
  proof -
    from list_all2_right_mem[OF rel that] obtain row where "row \<in> set brows" "snd kr = row"
      by blast
    with wf show ?thesis by simp
  qed
  let ?G = "groupby fst krs"
  have ok: "\<exists>y. ?H g = Inr y" if g: "g \<in> set ?G" for g
  proof -
    obtain root grp where rg: "g = (root, grp)" by (cases g)
    from g rg have "(root, grp) \<in> set ?G" by simp
    from groupby_group[OF this] have sub: "set grp \<subseteq> set krs" by blast
    have "\<forall>kr\<in>set grp. \<exists>y. ?h kr = Inr y"
    proof
      fix kr assume "kr \<in> set grp"
      with sub have "kr \<in> set krs" by blast
      from fields[OF this] obtain b t where "snd kr ''branch'' = Some b" "snd kr ''title'' = Some t"
        by auto
      then have "?h kr = Inr (as_graph_id b, format_record_label t)"
        by (simp add: case_prod_beta)
      then show "\<exists>y. ?h kr = Inr y" by (rule exI)
    qed
    from collect_map_total[OF this] obtain ls where "collect (map ?h grp) = Inr ls" ..
    then have "?H g = Inr (root, ls)" by (simp add: rg)
    then show ?thesis by (rule exI)
  qed
  then have "\<forall>g\<in>set ?G. \<exists>y. ?H g = Inr y" by blast
  from collect_map_total[OF this] obtain kvs where c: "collect (map ?H ?G) = Inr kvs" ..
  have res: "find_branches_by_task brows = Inr (py_dict kvs)"
    by (simp only: find_branches_by_task_def k c sum.case)
  note all2 = collect_map_Inr[OF c]
  have "list_all2 (\<lambda>g kv. fst g = fst kv) ?G kvs"
    by (rule list.rel_mono_strong[OF all2]) (auto split: sum.splits)
  then have "map fst ?G = map fst kvs"
    by (simp add: list_all2_conv_all_nth list_eq_iff_nth_eq)
  then have keys: "map fst kvs = remdups_adj (List.map_filter (\<lambda>row. row ''task'') brows)"
    by (simp add: groupby_keys_list keyed_keys[OF rel])
  with col have dk: "distinct (map fst kvs)" by (simp add: collated_def)
  then have pd: "py_dict kvs = kvs" by (rule py_dict_id)
  have dG: "distinct (map fst ?G)"
    using col by (simp add: collated_def groupby_keys_list keyed_keys[OF rel])
  have each: "list_all2 ?R (filter (\<lambda>row. row ''task'' = Some root) brows) ls"
    if m: "(root, ls) \<in> set kvs" for root ls
  proof -
    from list_all2_right_mem[OF all2 m] obtain g where g: "g \<in> set ?G"
      and H: "?H g = Inr (root, ls)" by blast
    obtain r grp where rg: "g = (r, grp)" by (cases g)
    from H rg have r: "r = root" and cl: "collect (map ?h grp) = Inr ls"
      by (auto split: sum.splits)
    from g rg r have mg: "(root, grp) \<in> set ?G" by simp
    from groupby_distinct_filter[OF dG mg]
    have grp: "grp = filter (\<lambda>kr. fst kr = root) krs" .
    have rows: "map snd grp = filter (\<lambda>row. row ''task'' = Some root) brows"
      unfolding grp by (rule keyed_filter[OF rel])
    have "list_all2 (\<lambda>kr l. ?h kr = Inr l) grp ls"
      using collect_map_Inr[OF cl] .
    then have "list_all2 (\<lambda>kr l. ?R (snd kr) l) grp ls"
      by (rule list_all2_mono) (auto split: option.splits)
    then have "list_all2 ?R (map snd grp) ls"
      by (simp add: list_all2_map1)
    then show ?thesis by (simp only: rows)
  qed
  have "\<forall>(root, ls)\<in>set kvs. list_all2 ?R (filter (\<lambda>row. row ''task'' = Some root) brows) ls"
    using each by auto
  with res keys show ?thesis unfolding pd by blast
qed

text \<open>
  C7, as amended. For rows of the branch query that all bind \<^verbatim>\<open>task\<close>, \<^verbatim>\<open>branch\<close> and
  \<^verbatim>\<open>title\<close> and are collated by root, \<^verbatim>\<open>find_branches_by_task\<close> returns one entry for
  every root, in the order in which the roots are first delivered, and the list of a root
  holds, for all rows of that root in the order of delivery, the sanitized branch id and
  the pipe-escaped title. The renderer does not read these pairs (no drawing function calls
  \<^verbatim>\<open>find_branches_by_task\<close>): the sub-rows of a compound node are the Tasks of the primary
  stream that name the node in \<^verbatim>\<open>is_branch_of\<close>, in the order of the task map, each with
  its own id as port and its own title, escaped for HTML and wrapped but not pipe-escaped,
  as label text.
\<close>

theorem sub_row_labels_from_tasks:
  assumes "set_order enum" and "task_by_id enum rows = Inr tbi"
    and "task_with_branches_by_id tbi = Inr twb"
    and "\<forall>row\<in>set brows. row ''task'' \<noteq> None \<and> row ''branch'' \<noteq> None \<and> row ''title'' \<noteq> None"
    and "collated ''task'' brows"
  shows "(\<exists>labels. find_branches_by_task brows = Inr labels \<and>
            map fst labels = remdups_adj (List.map_filter (\<lambda>row. row ''task'') brows) \<and>
            (\<forall>(root, ls)\<in>set labels.
               list_all2 (\<lambda>row l. \<exists>b t. row ''branch'' = Some b \<and> row ''title'' = Some t \<and>
                                     l = (as_graph_id b, format_record_label t))
                         (filter (\<lambda>row. row ''task'' = Some root) brows) ls)) \<and>
         (\<forall>n\<in>set (draw_nodes_with_branches wrap twb).
            sub_rows n = map (\<lambda>T. (id' T, wrap_html wrap (title T) ''center''))
                             (filter (\<lambda>T. name n \<in> set (is_branch_of T)) (map snd tbi)))"
proof (intro conjI ballI)
  show "\<exists>labels. find_branches_by_task brows = Inr labels \<and>
            map fst labels = remdups_adj (List.map_filter (\<lambda>row. row ''task'') brows) \<and>
            (\<forall>(root, ls)\<in>set labels.
               list_all2 (\<lambda>row l. \<exists>b t. row ''branch'' = Some b \<and> row ''title'' = Some t \<and>
                                     l = (as_graph_id b, format_record_label t))
                         (filter (\<lambda>row. row ''task'' = Some root) brows) ls)"
    by (rule branch_labels_exact[OF assms(4,5)])
next
  fix n assume "n \<in> set (draw_nodes_with_branches wrap twb)"
  from compound_sub_rows[OF assms(1,2,3) this]
  show "sub_rows n = map (\<lambda>T. (id' T, wrap_html wrap (title T) ''center''))
                         (filter (\<lambda>T. name n \<in> set (is_branch_of T)) (map snd tbi))" .
qed

theorem sub_row_labels_from_tasks_witness:
  "set_order remdups \<and> task_by_id remdups roadmap_rows = Inr roadmap_tasks \<and>
   task_with_branches_by_id roadmap_tasks = Inr roadmap_compound \<and>
   list_all (\<lambda>row. row ''task'' \<noteq> None \<and> row ''branch'' \<noteq> None \<and> row ''title'' \<noteq> None)
     roadmap_branch_rows \<and>
   collated ''task'' roadmap_branch_rows \<and>
   find_branches_by_task roadmap_branch_rows =
     Inr [(''ex:P'', [(''ex_X'', [CHR ''a'', CHR 0x5C, CHR ''|'', CHR ''b''])]),
          (''ex:X'', [(''ex_Y'', ''Y'')])] \<and>
   [''ex:P'', ''ex:X''] = remdups_adj (List.map_filter (\<lambda>row. row ''task'') roadmap_branch_rows) \<and>
   list_all2 (\<lambda>row l. \<exists>b t. row ''branch'' = Some b \<and> row ''title'' = Some t \<and>
                         l = (as_graph_id b, format_record_label t))
             (filter (\<lambda>row. row ''task'' = Some ''ex:P'') roadmap_branch_rows)
             [(''ex_X'', [CHR ''a'', CHR 0x5C, CHR ''|'', CHR ''b''])] \<and>
   compound_node one_line (snd (roadmap_compound ! 0))
     \<in> set (draw_nodes_with_branches one_line roadmap_compound) \<and>
   sub_rows (compound_node one_line (snd (roadmap_compound ! 0))) =
     map (\<lambda>T. (id' T, wrap_html one_line (title T) ''center''))
         (filter (\<lambda>T. name (compound_node one_line (snd (roadmap_compound ! 0)))
                         \<in> set (is_branch_of T)) (map snd roadmap_tasks))"
proof -
  let ?L = "[(''ex:P'', [(''ex_X'', [CHR ''a'', CHR 0x5C, CHR ''|'', CHR ''b''])]),
             (''ex:X'', [(''ex_Y'', ''Y'')])]"
  have h1: "set_order remdups" by (simp add: set_order_def)
  have h2: "task_by_id remdups roadmap_rows = Inr roadmap_tasks" by code_simp
  have h3: "task_with_branches_by_id roadmap_tasks = Inr roadmap_compound" by code_simp
  have w: "list_all (\<lambda>row. row ''task'' \<noteq> None \<and> row ''branch'' \<noteq> None \<and> row ''title'' \<noteq> None)
     roadmap_branch_rows"
    by (simp add: roadmap_branch_rows_def)
  then have h4: "\<forall>row\<in>set roadmap_branch_rows.
      row ''task'' \<noteq> None \<and> row ''branch'' \<noteq> None \<and> row ''title'' \<noteq> None"
    by (simp only: list_all_iff)
  have h5: "collated ''task'' roadmap_branch_rows" by code_simp
  have v: "find_branches_by_task roadmap_branch_rows = Inr ?L" by code_simp
  have m: "compound_node one_line (snd (roadmap_compound ! 0))
     \<in> set (draw_nodes_with_branches one_line roadmap_compound)"
    by (simp add: draw_nodes_with_branches_def roadmap_compound_def)
  note t = sub_row_labels_from_tasks[OF h1 h2 h3 h4 h5, of one_line]
  from conjunct1[OF t] obtain labels where
    l1: "find_branches_by_task roadmap_branch_rows = Inr labels"
    and l2: "map fst labels = remdups_adj (List.map_filter (\<lambda>row. row ''task'') roadmap_branch_rows)"
    and l3: "\<forall>(root, ls)\<in>set labels.
               list_all2 (\<lambda>row l. \<exists>b t. row ''branch'' = Some b \<and> row ''title'' = Some t \<and>
                                     l = (as_graph_id b, format_record_label t))
                         (filter (\<lambda>row. row ''task'' = Some root) roadmap_branch_rows) ls"
    by blast
  from l1 v have eq: "labels = ?L" by simp
  from l2 have k: "[''ex:P'', ''ex:X''] =
      remdups_adj (List.map_filter (\<lambda>row. row ''task'') roadmap_branch_rows)"
    unfolding eq by simp
  have "(''ex:P'', [(''ex_X'', [CHR ''a'', CHR 0x5C, CHR ''|'', CHR ''b''])]) \<in> set labels"
    unfolding eq by simp
  from bspec[OF l3 this]
  have r: "list_all2 (\<lambda>row l. \<exists>b t. row ''branch'' = Some b \<and> row ''title'' = Some t \<and>
                         l = (as_graph_id b, format_record_label t))
             (filter (\<lambda>row. row ''task'' = Some ''ex:P'') roadmap_branch_rows)
             [(''ex_X'', [CHR ''a'', CHR 0x5C, CHR ''|'', CHR ''b''])]"
    by (simp only: prod.case)
  from conjunct2[OF t] m
  have s: "sub_rows (compound_node one_line (snd (roadmap_compound ! 0))) =
     map (\<lambda>T. (id' T, wrap_html one_line (title T) ''center''))
         (filter (\<lambda>T. name (compound_node one_line (snd (roadmap_compound ! 0)))
                         \<in> set (is_branch_of T)) (map snd roadmap_tasks))"
    by (rule bspec)
  from h1 h2 h3 w h5 v k r m s show ?thesis by (intro conjI)
qed

theorem branch_labels_not_used_counterexample:
  "find_branches_by_task roadmap_branch_rows =
     Inr [(''ex:P'', [(''ex_X'', [CHR ''a'', CHR 0x5C, CHR ''|'', CHR ''b''])]),
          (''ex:X'', [(''ex_Y'', ''Y'')])] \<and>
   map_sum id (\<lambda>g. map (\<lambda>n. (name n, sub_rows n)) (nodes g))
     (show_graph remdups one_line roadmap_rows) =
     Inr [(''ex_P'', [(''ex_X'', ''a|b<br align='' @ [CHR 0x22] @ ''center'' @ [CHR 0x22] @ ''/>'')]),
          (''ex_X'', [(''ex_Y'', ''Y<br align='' @ [CHR 0x22] @ ''center'' @ [CHR 0x22] @ ''/>'')]),
          (''ex_Q'', [])] \<and>
   find_branches_by_task recurring_root_rows =
     Inr [(''ex:P'', [(''ex_Y'', ''Y'')]), (''ex:R'', [(''ex_Z'', ''Z'')])]"
  by code_simp

section \<open>Identifiers\<close>

lemma as_graph_id_chars:
  "CHR '':'' \<notin> set (as_graph_id s) \<and> length (as_graph_id s) = length s \<and>
   (\<forall>i<length s. as_graph_id s ! i = (if s ! i = CHR '':'' then CHR ''_'' else s ! i))"
  by (auto simp: as_graph_id_def)

lemma set_map_filter: "set (List.map_filter f xs) = {y. \<exists>x\<in>set xs. f x = Some y}"
  by (induction xs) (auto simp: List.map_filter_simps split: option.splits)

lemma draw_edges_mem:
  assumes "e \<in> set (draw_edges tbi twb)"
  obtains T d where "T \<in> snd ` set tbi" "d \<in> set (blocks T)" "edge_for tbi twb T d = Some e"
  using assms by (auto simp: draw_edges_def set_map_filter)

lemma task_id_source:
  assumes "task_by_id enum rows = Inr tbi" and "(k, T) \<in> set tbi"
  shows "id' T \<in> as_graph_id ` source_ids ''task'' rows"
proof -
  from assms obtain tid row where r: "row \<in> set rows" "row ''task'' = Some tid"
    and g: "task_of_group enum (tid, filter (\<lambda>row. row ''task'' = Some tid) rows) = Inr (k, T)"
    by (rule task_by_id_entry)
  from g have "id' T = as_graph_id tid" by (rule task_of_group_Inr) simp
  moreover from r have "tid \<in> source_ids ''task'' rows" by (auto simp: source_ids_def)
  ultimately show ?thesis by simp
qed

lemma referenced_source:
  "set (referenced field rs) \<subseteq> as_graph_id ` source_ids field rs"
  by (auto simp: referenced_set source_ids_def)

lemma source_ids_filter: "source_ids field (filter P rows) \<subseteq> source_ids field rows"
  by (auto simp: source_ids_def)

lemma task_refs_source:
  assumes "set_order enum" and "task_by_id enum rows = Inr tbi" and "(k, T) \<in> set tbi"
  shows "set (blocks T) \<subseteq> as_graph_id ` source_ids ''blocks'' rows"
    and "set (is_branch_of T) \<subseteq> as_graph_id ` source_ids ''is_branch_of'' rows"
proof -
  from assms(2,3) obtain tid where
    "task_of_group enum (tid, filter (\<lambda>row. row ''task'' = Some tid) rows) = Inr (k, T)"
    by (rule task_by_id_entry)
  then obtain rs where rs: "rs = filter (\<lambda>row. row ''task'' = Some tid) rows"
    and b: "blocks T = enum (referenced ''blocks'' rs)"
    and i: "is_branch_of T = enum (referenced ''is_branch_of'' rs)"
    by (rule task_of_group_Inr) simp
  from assms(1) have e: "\<And>xs. set (enum xs) = set xs" by (simp add: set_order_def)
  have s: "as_graph_id ` source_ids field rs \<subseteq> as_graph_id ` source_ids field rows" for field
    unfolding rs using source_ids_filter by (rule image_mono)
  show "set (blocks T) \<subseteq> as_graph_id ` source_ids ''blocks'' rows"
    unfolding b e using referenced_source s by (rule subset_trans)
  show "set (is_branch_of T) \<subseteq> as_graph_id ` source_ids ''is_branch_of'' rows"
    unfolding i e using referenced_source s by (rule subset_trans)
qed

lemma sub_rows_plain [simp]: "sub_rows (plain_node wrap T) = []"
  by (simp add: sub_rows_def)

lemma node_names_source:
  assumes "task_by_id enum rows = Inr tbi" and "task_with_branches_by_id tbi = Inr twb"
  shows "name ` set (draw_nodes_with_branches wrap twb @ draw_nodes_without_branches wrap tbi twb)
           \<subseteq> as_graph_id ` source_ids ''task'' rows"
proof -
  have v: "id' T \<in> as_graph_id ` source_ids ''task'' rows" if "T \<in> snd ` set tbi" for T
    using that task_id_source[OF assms(1)] by auto
  have "fst ` set twb \<subseteq> as_graph_id ` source_ids ''task'' rows"
  proof
    fix X assume "X \<in> fst ` set twb"
    then obtain e where e: "(X, e) \<in> set twb" by auto
    obtain parent where "map_of tbi X = Some parent"
      by (rule compound_entry[OF assms(2) e])
    then have m: "(X, parent) \<in> set tbi" by (rule map_of_SomeD)
    from task_id_source[OF assms(1) m] task_by_id_key[OF assms(1) m]
    show "X \<in> as_graph_id ` source_ids ''task'' rows" by simp
  qed
  moreover have "name ` set (draw_nodes_without_branches wrap tbi twb)
      \<subseteq> as_graph_id ` source_ids ''task'' rows"
    unfolding plain_names using v by auto
  ultimately show ?thesis
    by (simp add: image_Un compound_names[OF assms])
qed

lemma anchors_snd:
  "p \<in> snd ` anchors g \<longleftrightarrow> (\<exists>n\<in>set (nodes g). p \<in> fst ` set (sub_rows n))"
proof
  assume "p \<in> snd ` anchors g"
  then obtain a where "(a, p) \<in> anchors g" by auto
  then show "\<exists>n\<in>set (nodes g). p \<in> fst ` set (sub_rows n)"
    unfolding anchors_def by blast
next
  assume "\<exists>n\<in>set (nodes g). p \<in> fst ` set (sub_rows n)"
  then obtain n where "n \<in> set (nodes g)" "p \<in> fst ` set (sub_rows n)" by blast
  then have "(name n, p) \<in> anchors g" unfolding anchors_def by blast
  then show "p \<in> snd ` anchors g" by force
qed

lemma anchors_source:
  assumes "task_by_id enum rows = Inr tbi" and "task_with_branches_by_id tbi = Inr twb"
  shows "snd ` anchors \<lparr>nodes = draw_nodes_with_branches wrap twb
                                 @ draw_nodes_without_branches wrap tbi twb,
                        edges = es\<rparr>
           \<subseteq> as_graph_id ` source_ids ''task'' rows"
proof
  fix p assume "p \<in> snd ` anchors \<lparr>nodes = draw_nodes_with_branches wrap twb
                                 @ draw_nodes_without_branches wrap tbi twb, edges = es\<rparr>"
  then obtain n where n: "n \<in> set (draw_nodes_with_branches wrap twb @ draw_nodes_without_branches wrap tbi twb)"
    and p: "p \<in> fst ` set (sub_rows n)"
    unfolding anchors_snd by auto
  have "n \<notin> set (draw_nodes_without_branches wrap tbi twb)"
  proof
    assume "n \<in> set (draw_nodes_without_branches wrap tbi twb)"
    then obtain T where "n = plain_node wrap T"
      by (auto simp: draw_nodes_without_branches_def Let_def)
    with p show False by simp
  qed
  with n have "n \<in> set (draw_nodes_with_branches wrap twb)" by simp
  then obtain X e where e: "(X, e) \<in> set twb" and ne: "n = compound_node wrap e"
    by (auto simp: draw_nodes_with_branches_def)
  from p obtain T where T: "T \<in> set (branches e)" "p = id' T"
    unfolding ne sub_rows_compound by auto
  obtain parent where
    "e = with_branches parent (map snd (filter (\<lambda>pc. fst pc = X) (branch_rows tbi)))"
    by (rule compound_entry[OF assms(2) e])
  then have "set (branches e) = {T \<in> snd ` set tbi. X \<in> set (is_branch_of T)}"
    using children_set[of X tbi] by simp
  with T(1) obtain k where "(k, T) \<in> set tbi" by auto
  from task_id_source[OF assms(1) this] T(2)
  show "p \<in> as_graph_id ` source_ids ''task'' rows" by simp
qed

lemma show_graph_maps:
  assumes "show_graph enum wrap rows = Inr g"
  obtains tbi twb where "task_by_id enum rows = Inr tbi"
    "task_with_branches_by_id tbi = Inr twb"
    "g = \<lparr>nodes = draw_nodes_with_branches wrap twb
                    @ draw_nodes_without_branches wrap tbi twb,
           edges = draw_edges tbi twb\<rparr>"
  using assms by (auto simp: show_graph_def split: sum.splits)

lemma edge_ends:
  assumes "set_order enum" and "task_by_id enum rows = Inr tbi"
    and "task_with_branches_by_id tbi = Inr twb"
    and g: "g = \<lparr>nodes = draw_nodes_with_branches wrap twb
                    @ draw_nodes_without_branches wrap tbi twb,
                 edges = draw_edges tbi twb\<rparr>"
    and "e \<in> set (edges g)"
  shows "\<exists>t\<in>source_ids ''task'' rows. \<exists>d\<in>source_ids ''blocks'' rows.
           (tail_name e = as_graph_id t \<or> tail_name e = as_graph_id t @ '':title:e'') \<and>
           (head_name e = as_graph_id d \<and> as_graph_id d \<in> name ` set (nodes g)
            \<or> head_name e = as_graph_id d @ '':xor:w'' \<and> as_graph_id d \<in> name ` set (nodes g)
            \<or> (\<exists>p\<in>source_ids ''is_branch_of'' rows.
                  head_name e = as_graph_id p @ '':'' @ as_graph_id d @ '':w'' \<and>
                  (as_graph_id p, as_graph_id d) \<in> anchors g))"
proof -
  from assms(5) have "e \<in> set (draw_edges tbi twb)" by (simp add: g)
  then obtain T d' where T: "T \<in> snd ` set tbi" and d': "d' \<in> set (blocks T)"
    and ef: "edge_for tbi twb T d' = Some e"
    by (rule draw_edges_mem)
  from T obtain k where kT: "(k, T) \<in> set tbi" by auto
  from ef edge_for_normalized[OF assms(1,2) kT, of twb d']
  obtain Dt where Dt: "map_of tbi d' = Some Dt" and e: "e = spec_edge twb T d' Dt"
    by auto
  from Dt have mD: "(d', Dt) \<in> set tbi" by (rule map_of_SomeD)
  then have vD: "Dt \<in> snd ` set tbi" by force
  have iD: "id' Dt = d'" by (rule task_by_id_key[OF assms(2) mD])
  from task_id_source[OF assms(2) kT] obtain t where t: "t \<in> source_ids ''task'' rows"
    "id' T = as_graph_id t" by auto
  from task_refs_source(1)[OF assms(1,2) kT] d' obtain d where d: "d \<in> source_ids ''blocks'' rows"
    "d' = as_graph_id d" by auto
  have tail: "tail_name e = as_graph_id t \<or> tail_name e = as_graph_id t @ '':title:e''"
    by (simp add: e spec_edge_def spec_source_def t(2))
  have names: "name ` set (nodes g) = fst ` set twb \<union>
      id' ` {T \<in> snd ` set tbi. id' T \<notin> fst ` set twb \<and> is_branch_of T = []}"
    by (simp add: g image_Un compound_names[OF assms(2,3)] plain_names)
  have head: "head_name e = d' \<and> d' \<in> name ` set (nodes g)
            \<or> head_name e = d' @ '':xor:w'' \<and> d' \<in> name ` set (nodes g)
            \<or> (\<exists>p\<in>source_ids ''is_branch_of'' rows.
                  head_name e = as_graph_id p @ '':'' @ d' @ '':w'' \<and>
                  (as_graph_id p, d') \<in> anchors g)"
  proof (cases "is_branch_of Dt")
    case Nil
    show ?thesis
    proof (cases "d' \<in> fst ` set twb")
      case True
      with Nil have "head_name e = d' @ '':xor:w''"
        by (simp add: e spec_edge_def spec_destination_def)
      moreover from True have "d' \<in> name ` set (nodes g)" by (simp add: names)
      ultimately show ?thesis by (intro disjI2 disjI1 conjI)
    next
      case False
      with Nil have "head_name e = d'"
        by (simp add: e spec_edge_def spec_destination_def)
      moreover have "d' \<in> id' ` {T \<in> snd ` set tbi. id' T \<notin> fst ` set twb \<and> is_branch_of T = []}"
        using vD iD False Nil by force
      then have "d' \<in> name ` set (nodes g)" by (simp add: names)
      ultimately show ?thesis by (intro disjI1 conjI)
    qed
  next
    case (Cons parent others)
    then have h: "head_name e = parent @ '':'' @ d' @ '':w''"
      by (simp add: e spec_edge_def spec_destination_def)
    from Cons have pm: "parent \<in> set (is_branch_of Dt)" by simp
    with task_refs_source(2)[OF assms(1,2) mD] obtain p where
      p: "p \<in> source_ids ''is_branch_of'' rows" "parent = as_graph_id p" by auto
    from branch_in_parent_node[OF assms(2,3) vD pm, of wrap]
    obtain n tab c where n: "n \<in> set (draw_nodes_with_branches wrap twb)" "name n = parent"
      and c: "label n = Html_table tab" "c \<in> set (table_rows tab)" "port c = id' Dt"
      by blast
    from c have "d' \<in> fst ` set (sub_rows n)"
      by (force simp: sub_rows_def iD)
    moreover from n(1) have "n \<in> set (nodes g)" by (simp add: g)
    ultimately have "(name n, d') \<in> anchors g" unfolding anchors_def by blast
    then have a: "(as_graph_id p, d') \<in> anchors g" by (simp only: n(2) p(2))
    from h have "head_name e = as_graph_id p @ '':'' @ d' @ '':w''" by (simp only: p(2))
    with a have "\<exists>p\<in>source_ids ''is_branch_of'' rows.
                  head_name e = as_graph_id p @ '':'' @ d' @ '':w'' \<and>
                  (as_graph_id p, d') \<in> anchors g"
      using p(1) by (intro bexI[of _ p] conjI)
    then show ?thesis by (intro disjI2)
  qed
  have "\<exists>d\<in>source_ids ''blocks'' rows.
           (tail_name e = as_graph_id t \<or> tail_name e = as_graph_id t @ '':title:e'') \<and>
           (head_name e = as_graph_id d \<and> as_graph_id d \<in> name ` set (nodes g)
            \<or> head_name e = as_graph_id d @ '':xor:w'' \<and> as_graph_id d \<in> name ` set (nodes g)
            \<or> (\<exists>p\<in>source_ids ''is_branch_of'' rows.
                  head_name e = as_graph_id p @ '':'' @ as_graph_id d @ '':w'' \<and>
                  (as_graph_id p, as_graph_id d) \<in> anchors g))"
    using tail head d(1) unfolding d(2) by (intro bexI[of _ d] conjI)
  from this t(1) show ?thesis by (rule bexI)
qed

text \<open>
  C9. \<^verbatim>\<open>as_graph_id\<close> turns every colon of an identifier into an underscore and leaves the
  other characters as they are. In the graph of a render call, every node name and every
  sub-row port is the sanitized form of a task identifier of the rows. Every edge starts at
  the sanitized form of a task identifier (or at its \<^verbatim>\<open>title\<close> anchor) and ends at the
  sanitized form of a \<^verbatim>\<open>blocks\<close> identifier: at a declared node of that name, at the \<^verbatim>\<open>xor\<close>
  anchor of a declared node of that name, or at the declared sub-row of that name in the
  node named by the sanitized form of an \<^verbatim>\<open>is_branch_of\<close> identifier.
\<close>

theorem ids_sanitized_consistently:
  assumes "set_order enum" and "show_graph enum wrap rows = Inr g"
  shows "(\<forall>s. CHR '':'' \<notin> set (as_graph_id s) \<and> length (as_graph_id s) = length s \<and>
              (\<forall>i<length s. as_graph_id s ! i = (if s ! i = CHR '':'' then CHR ''_'' else s ! i))) \<and>
         name ` set (nodes g) \<subseteq> as_graph_id ` source_ids ''task'' rows \<and>
         snd ` anchors g \<subseteq> as_graph_id ` source_ids ''task'' rows \<and>
         (\<forall>e\<in>set (edges g).
            \<exists>t\<in>source_ids ''task'' rows. \<exists>d\<in>source_ids ''blocks'' rows.
              (tail_name e = as_graph_id t \<or> tail_name e = as_graph_id t @ '':title:e'') \<and>
              (head_name e = as_graph_id d \<and> as_graph_id d \<in> name ` set (nodes g)
               \<or> head_name e = as_graph_id d @ '':xor:w'' \<and> as_graph_id d \<in> name ` set (nodes g)
               \<or> (\<exists>p\<in>source_ids ''is_branch_of'' rows.
                     head_name e = as_graph_id p @ '':'' @ as_graph_id d @ '':w'' \<and>
                     (as_graph_id p, as_graph_id d) \<in> anchors g)))"
proof -
  from assms(2) obtain tbi twb where tbi: "task_by_id enum rows = Inr tbi"
    and twb: "task_with_branches_by_id tbi = Inr twb"
    and g: "g = \<lparr>nodes = draw_nodes_with_branches wrap twb
                    @ draw_nodes_without_branches wrap tbi twb,
                 edges = draw_edges tbi twb\<rparr>"
    by (rule show_graph_maps)
  have c1: "\<forall>s. CHR '':'' \<notin> set (as_graph_id s) \<and> length (as_graph_id s) = length s \<and>
              (\<forall>i<length s. as_graph_id s ! i = (if s ! i = CHR '':'' then CHR ''_'' else s ! i))"
    using as_graph_id_chars by (rule allI)
  have c2: "name ` set (nodes g) \<subseteq> as_graph_id ` source_ids ''task'' rows"
    using node_names_source[OF tbi twb, of wrap] by (simp add: g)
  have c3: "snd ` anchors g \<subseteq> as_graph_id ` source_ids ''task'' rows"
    unfolding g by (rule anchors_source[OF tbi twb])
  have c4: "\<forall>e\<in>set (edges g).
            \<exists>t\<in>source_ids ''task'' rows. \<exists>d\<in>source_ids ''blocks'' rows.
              (tail_name e = as_graph_id t \<or> tail_name e = as_graph_id t @ '':title:e'') \<and>
              (head_name e = as_graph_id d \<and> as_graph_id d \<in> name ` set (nodes g)
               \<or> head_name e = as_graph_id d @ '':xor:w'' \<and> as_graph_id d \<in> name ` set (nodes g)
               \<or> (\<exists>p\<in>source_ids ''is_branch_of'' rows.
                     head_name e = as_graph_id p @ '':'' @ as_graph_id d @ '':w'' \<and>
                     (as_graph_id p, as_graph_id d) \<in> anchors g))"
    using edge_ends[OF assms(1) tbi twb g] by (rule ballI)
  from c1 c2 c3 c4 show ?thesis by (intro conjI)
qed

theorem ids_sanitized_consistently_witness:
  "set_order remdups \<and>
   show_graph remdups one_line roadmap_rows = Inr roadmap_graph \<and>
   name ` set (nodes roadmap_graph) \<subseteq> as_graph_id ` source_ids ''task'' roadmap_rows \<and>
   snd ` anchors roadmap_graph \<subseteq> as_graph_id ` source_ids ''task'' roadmap_rows \<and>
   edges roadmap_graph ! 0 \<in> set (edges roadmap_graph) \<and>
   (\<exists>t\<in>source_ids ''task'' roadmap_rows. \<exists>d\<in>source_ids ''blocks'' roadmap_rows.
      (tail_name (edges roadmap_graph ! 0) = as_graph_id t \<or>
       tail_name (edges roadmap_graph ! 0) = as_graph_id t @ '':title:e'') \<and>
      (head_name (edges roadmap_graph ! 0) = as_graph_id d \<and>
         as_graph_id d \<in> name ` set (nodes roadmap_graph)
       \<or> head_name (edges roadmap_graph ! 0) = as_graph_id d @ '':xor:w'' \<and>
         as_graph_id d \<in> name ` set (nodes roadmap_graph)
       \<or> (\<exists>p\<in>source_ids ''is_branch_of'' roadmap_rows.
             head_name (edges roadmap_graph ! 0) = as_graph_id p @ '':'' @ as_graph_id d @ '':w'' \<and>
             (as_graph_id p, as_graph_id d) \<in> anchors roadmap_graph)))"
proof -
  have h1: "set_order remdups" by (simp add: set_order_def)
  have t1: "task_by_id remdups roadmap_rows = Inr roadmap_tasks" by code_simp
  have t2: "task_with_branches_by_id roadmap_tasks = Inr roadmap_compound" by code_simp
  have h2: "show_graph remdups one_line roadmap_rows = Inr roadmap_graph"
    unfolding roadmap_graph_def by (rule show_graph_Inr[OF t1 t2])
  have "length (edges roadmap_graph) = 2" by code_simp
  then have m: "edges roadmap_graph ! 0 \<in> set (edges roadmap_graph)" by simp
  note t = ids_sanitized_consistently[OF h1 h2]
  from t have a: "name ` set (nodes roadmap_graph) \<subseteq> as_graph_id ` source_ids ''task'' roadmap_rows"
    by (rule conjunct1[OF conjunct2])
  from t have b: "snd ` anchors roadmap_graph \<subseteq> as_graph_id ` source_ids ''task'' roadmap_rows"
    by (rule conjunct1[OF conjunct2[OF conjunct2]])
  from t have c: "\<forall>e\<in>set (edges roadmap_graph).
            \<exists>t\<in>source_ids ''task'' roadmap_rows. \<exists>d\<in>source_ids ''blocks'' roadmap_rows.
              (tail_name e = as_graph_id t \<or> tail_name e = as_graph_id t @ '':title:e'') \<and>
              (head_name e = as_graph_id d \<and> as_graph_id d \<in> name ` set (nodes roadmap_graph)
               \<or> head_name e = as_graph_id d @ '':xor:w'' \<and> as_graph_id d \<in> name ` set (nodes roadmap_graph)
               \<or> (\<exists>p\<in>source_ids ''is_branch_of'' roadmap_rows.
                     head_name e = as_graph_id p @ '':'' @ as_graph_id d @ '':w'' \<and>
                     (as_graph_id p, as_graph_id d) \<in> anchors roadmap_graph))"
    by (rule conjunct2[OF conjunct2[OF conjunct2]])
  note c0 = bspec[OF c m]
  from h1 h2 a b m c0 show ?thesis by (intro conjI)
qed

end
